theory Spec2Isabelle
  imports Main
begin

section \<open>Values, Store objects and the runtime state\<close>

text \<open>
  Python values as the functions of \<^verbatim>\<open>store.py\<close> inspect them: scalars, the three
  built-in containers that \<^verbatim>\<open>_unpack_stores_from_object\<close> walks, and Store objects.
  Containers are immutable trees here; a Store is a mutable object with an identity, so a
  value mentions it by its address (\<open>PStore a\<close>) and its fields live in the heap of the
  runtime state. A dict is an association list in insertion order.

  A Store wraps a plain value (\<open>pyval\<close>), never another Store directly: \<^verbatim>\<open>set\<close> unwraps
  a Store argument and \<^verbatim>\<open>make_store\<close> returns it, so no function of the module builds
  a Store around a Store. Stores do occur inside wrapped containers.
\<close>

datatype pyval =
    PNone
  | PInt int
  | PStr string
  | PList "pyobj list"
  | PTuple "pyobj list"
  | PDict "(pyobj \<times> pyobj) list"
and pyobj =
    Raw pyval
  | PStore nat

text \<open>The attributes of a Store object: \<^verbatim>\<open>id\<close>, \<^verbatim>\<open>__wrapped__\<close>, \<^verbatim>\<open>_self_backend_only\<close>.\<close>

record store =
  sid :: nat
  wrapped :: pyval
  backend_only :: bool

text \<open>\<^verbatim>\<open>StoreModification(id=..., value=...)\<close>.\<close>

record modification =
  mod_id :: nat
  mod_value :: pyval

text \<open>An operation node of the graph: the ids of its input and output Stores.\<close>

record operation =
  op_inputs :: "nat list"
  op_outputs :: "nat list"

text \<open>
  The state the module reads and writes: the Store objects by address (addresses below
  \<open>next_addr\<close> are allocated), the execution context (what \<^verbatim>\<open>is_reactive()\<close> of
  \<^verbatim>\<open>reactivity.py\<close> answers; that file is not among the sources, so the flag is part of
  the state), the warnings issued by \<^verbatim>\<open>warnings.warn\<close>, the modification queue and the
  operation nodes.
\<close>

record runtime =
  heap :: "nat \<Rightarrow> store"
  next_addr :: nat
  reactive :: bool
  warnings :: "string list"
  queue :: "modification list"
  nodes :: "operation list"

definition warn :: "string \<Rightarrow> runtime \<Rightarrow> runtime" where
  "warn msg rt = rt\<lparr>warnings := warnings rt @ [msg]\<rparr>"

text \<open>\<^verbatim>\<open>Store.value\<close> (the property, lines 46-48).\<close>

definition Store_value :: "runtime \<Rightarrow> nat \<Rightarrow> pyval" where
  "Store_value rt a = wrapped (heap rt a)"

text \<open>
  Modelled from the spec: \<^verbatim>\<open>IdentifiableMixin\<close> and \<^verbatim>\<open>StoreModification.add_to_queue\<close>
  are not among the source files. A new Store gets a NodeId no other Store has (here its
  address), and \<^verbatim>\<open>add_to_queue\<close> appends the modification to the queue (FIFO).
\<close>

definition add_to_queue :: "modification \<Rightarrow> runtime \<Rightarrow> runtime" where
  "add_to_queue m rt = rt\<lparr>queue := queue rt @ [m]\<rparr>"

text \<open>
  \<^verbatim>\<open>Store.__init__(wrapped, backend_only)\<close>: a new object at the next free address. The
  value universe has no iterators, so the iterator warning of lines 31-37 is never issued.
\<close>

definition Store_init :: "pyval \<Rightarrow> bool \<Rightarrow> runtime \<Rightarrow> nat \<times> runtime" where
  "Store_init w b rt =
     (let a = next_addr rt
      in (a, rt\<lparr>heap := (heap rt)(a := \<lparr>sid = a, wrapped = w, backend_only = b\<rparr>),
                next_addr := Suc a\<rparr>))"

text \<open>\<^verbatim>\<open>Store.set\<close> (lines 65-78), called on the Store at address \<open>a\<close>.\<close>

definition Store_set :: "nat \<Rightarrow> pyobj \<Rightarrow> runtime \<Rightarrow> runtime" where
  "Store_set a new_value rt =
     (let v = (case new_value of PStore b \<Rightarrow> wrapped (heap rt b) | Raw w \<Rightarrow> w);
          m = \<lparr>mod_id = sid (heap rt a), mod_value = v\<rparr>;
          rt1 = rt\<lparr>heap := (heap rt)(a := (heap rt a)\<lparr>wrapped := v\<rparr>)\<rparr>
      in add_to_queue m rt1)"

text \<open>A finite sequence of \<^verbatim>\<open>s.set(v)\<close> calls on the same Store.\<close>

fun set_many :: "nat \<Rightarrow> pyobj list \<Rightarrow> runtime \<Rightarrow> runtime" where
  "set_many a [] rt = rt"
| "set_many a (v # vs) rt = set_many a vs (Store_set a v rt)"

text \<open>\<^verbatim>\<open>make_store\<close> (lines 506-518).\<close>

definition make_store :: "pyobj \<Rightarrow> runtime \<Rightarrow> nat \<times> runtime" where
  "make_store v rt =
     (case v of PStore a \<Rightarrow> (a, rt) | Raw w \<Rightarrow> Store_init w False rt)"

text \<open>What a call can raise.\<close>

datatype py_error =
  RecursionError | TypeError | AttributeError | KeyError | IndexError | ZeroDivisionError

section \<open>Unpacking Stores from an argument\<close>

text \<open>
  What \<^verbatim>\<open>isinstance(obj, Store)\<close> answers, and the value that \<^verbatim>\<open>isinstance(obj, list)\<close>,
  \<^verbatim>\<open>for x in obj\<close> and \<^verbatim>\<open>obj.items()\<close> see: a Store is a transparent proxy
  (\<^verbatim>\<open>ObjectProxy\<close>), so they see its wrapped value.
\<close>

fun is_Store :: "pyobj \<Rightarrow> bool" where
  "is_Store (PStore a) = True"
| "is_Store (Raw v) = False"

fun proxied :: "runtime \<Rightarrow> pyobj \<Rightarrow> pyval" where
  "proxied rt (PStore a) = Store_value rt a"
| "proxied rt (Raw v) = v"

text \<open>\<^verbatim>\<open>if isinstance(obj, Store): stores.append(obj)\<close> (lines 559-560 and 573-574).\<close>

fun append_if_Store :: "nat list \<Rightarrow> pyobj \<Rightarrow> nat list" where
  "append_if_Store stores (PStore a) = stores @ [a]"
| "append_if_Store stores (Raw v) = stores"

text \<open>
  What a dict makes of a key. \<^verbatim>\<open>hash(k)\<close> raises \<open>TypeError\<close> for a list or a dict and
  hashes a tuple through its items; a Store hashes as its wrapped value (lines 147-148) and,
  with reactivity off, compares as its wrapped value (lines 131-133). So two keys are the
  same key of a dict exactly when they are the same value once every Store in them is
  replaced by what it wraps, and \<open>hash_key\<close> computes that value: \<open>Some (Inr c)\<close> for a
  hashable key, \<open>Some (Inl TypeError)\<close> for an unhashable one. Only \<^verbatim>\<open>Store.__hash__\<close> is a
  call of the interpreter, so only a Store uses up a level of the depth, and the result is
  \<open>None\<close> when the Stores inside Stores do not end within it.
\<close>

fun hash_key :: "nat \<Rightarrow> runtime \<Rightarrow> pyobj \<Rightarrow> (py_error + pyval) option"
and hash_val :: "nat \<Rightarrow> runtime \<Rightarrow> pyval \<Rightarrow> (py_error + pyval) option"
and hash_keys :: "nat \<Rightarrow> runtime \<Rightarrow> pyobj list \<Rightarrow> (py_error + pyobj list) option"
where
  "hash_key d rt (Raw v) = hash_val d rt v"
| "hash_key 0 rt (PStore a) = None"
| "hash_key (Suc d) rt (PStore a) = hash_val d rt (Store_value rt a)"
| "hash_val d rt (PList xs) = Some (Inl TypeError)"
| "hash_val d rt (PDict kvs) = Some (Inl TypeError)"
| "hash_val d rt (PTuple xs) =
     (case hash_keys d rt xs of
        None \<Rightarrow> None
      | Some (Inl e) \<Rightarrow> Some (Inl e)
      | Some (Inr cs) \<Rightarrow> Some (Inr (PTuple cs)))"
| "hash_val d rt PNone = Some (Inr PNone)"
| "hash_val d rt (PInt n) = Some (Inr (PInt n))"
| "hash_val d rt (PStr s) = Some (Inr (PStr s))"
| "hash_keys d rt [] = Some (Inr [])"
| "hash_keys d rt (x # xs) =
     (case hash_key d rt x of
        None \<Rightarrow> None
      | Some (Inl e) \<Rightarrow> Some (Inl e)
      | Some (Inr c) \<Rightarrow>
          (case hash_keys d rt xs of
             None \<Rightarrow> None
           | Some (Inl e) \<Rightarrow> Some (Inl e)
           | Some (Inr cs) \<Rightarrow> Some (Inr (Raw c # cs))))"

text \<open>
  \<^verbatim>\<open>unpacked[k] = v\<close> on the dict under construction (line 569): the key is hashed, which
  can raise; an entry with the same key keeps its key and its place and takes the new value;
  a new key goes last.
\<close>

fun dict_put ::
    "nat \<Rightarrow> runtime \<Rightarrow> pyval \<Rightarrow> (pyobj \<times> pyobj) list \<Rightarrow> pyobj \<Rightarrow> pyobj \<Rightarrow> (pyobj \<times> pyobj) list" where
  "dict_put d rt c [] k v = [(k, v)]"
| "dict_put d rt c ((k', v') # kvs) k v =
     (if hash_key d rt k' = Some (Inr c) then (k', v) # kvs
      else (k', v') # dict_put d rt c kvs k v)"

definition dict_setitem ::
    "nat \<Rightarrow> runtime \<Rightarrow> (pyobj \<times> pyobj) list \<Rightarrow> pyobj \<Rightarrow> pyobj
       \<Rightarrow> (py_error + (pyobj \<times> pyobj) list) option" where
  "dict_setitem d rt kvs k v =
     (case hash_key d rt k of
        None \<Rightarrow> None
      | Some (Inl e) \<Rightarrow> Some (Inl e)
      | Some (Inr c) \<Rightarrow> Some (Inr (dict_put d rt c kvs k v)))"

text \<open>
  \<^verbatim>\<open>_unpack_stores_from_object\<close> (lines 521-580). The first argument bounds the depth of
  the recursion: the function calls itself once per level of nesting, and \<open>None\<close> is a walk
  that has not returned within that depth. \<open>Some (Inl e)\<close> is a walk that raised \<open>e\<close>, which
  only the assignment of line 569 can do, and \<open>Some (Inr r)\<close> one that returned \<open>r\<close>.
  \<open>unpack_seq\<close> is the loop of lines 554-557 and \<open>unpack_items\<close> the loop of lines 566-571,
  each with the lists it builds as accumulators. The collected Stores are the objects
  themselves, here their addresses.
\<close>

fun unpack_stores_from_object ::
    "nat \<Rightarrow> runtime \<Rightarrow> pyobj \<Rightarrow> bool \<Rightarrow> (py_error + pyval \<times> nat list) option"
and unpack_seq ::
    "nat \<Rightarrow> runtime \<Rightarrow> pyobj list \<Rightarrow> bool \<Rightarrow> pyobj list \<Rightarrow> nat list
       \<Rightarrow> (py_error + pyobj list \<times> nat list) option"
and unpack_items ::
    "nat \<Rightarrow> runtime \<Rightarrow> (pyobj \<times> pyobj) list \<Rightarrow> bool \<Rightarrow> (pyobj \<times> pyobj) list \<Rightarrow> nat list
       \<Rightarrow> (py_error + (pyobj \<times> pyobj) list \<times> nat list) option"
where
  "unpack_stores_from_object 0 rt obj unpack_nested = None"
| "unpack_stores_from_object (Suc d) rt obj unpack_nested =
     (if \<not> unpack_nested \<and> is_Store obj
      then Some (Inr (proxied rt obj, append_if_Store [] obj))
      else
        (case proxied rt obj of
           PList xs \<Rightarrow>
             (case unpack_seq d rt xs unpack_nested [] [] of
                None \<Rightarrow> None
              | Some (Inl e) \<Rightarrow> Some (Inl e)
              | Some (Inr (unpacked, stores)) \<Rightarrow>
                  Some (Inr (PList unpacked, append_if_Store stores obj)))
         | PTuple xs \<Rightarrow>
             (case unpack_seq d rt xs unpack_nested [] [] of
                None \<Rightarrow> None
              | Some (Inl e) \<Rightarrow> Some (Inl e)
              | Some (Inr (unpacked, stores)) \<Rightarrow>
                  Some (Inr (PTuple unpacked, append_if_Store stores obj)))
         | PDict kvs \<Rightarrow>
             (case unpack_items d rt kvs unpack_nested [] [] of
                None \<Rightarrow> None
              | Some (Inl e) \<Rightarrow> Some (Inl e)
              | Some (Inr (unpacked, stores)) \<Rightarrow>
                  Some (Inr (PDict unpacked, append_if_Store stores obj)))
         | v \<Rightarrow> Some (Inr (v, append_if_Store [] obj))))"
| "unpack_seq d rt [] unpack_nested unpacked stores = Some (Inr (unpacked, stores))"
| "unpack_seq d rt (x # xs) unpack_nested unpacked stores =
     (case unpack_stores_from_object d rt x unpack_nested of
        None \<Rightarrow> None
      | Some (Inl e) \<Rightarrow> Some (Inl e)
      | Some (Inr (x', stores_i)) \<Rightarrow>
          unpack_seq d rt xs unpack_nested (unpacked @ [Raw x']) (stores @ stores_i))"
| "unpack_items d rt [] unpack_nested unpacked stores = Some (Inr (unpacked, stores))"
| "unpack_items d rt ((k, v) # kvs) unpack_nested unpacked stores =
     (case unpack_stores_from_object d rt k unpack_nested of
        None \<Rightarrow> None
      | Some (Inl e) \<Rightarrow> Some (Inl e)
      | Some (Inr (k', stores_i_k)) \<Rightarrow>
          (case unpack_stores_from_object d rt v unpack_nested of
             None \<Rightarrow> None
           | Some (Inl e) \<Rightarrow> Some (Inl e)
           | Some (Inr (v', stores_i_v)) \<Rightarrow>
               (case dict_setitem d rt unpacked (Raw k') (Raw v') of
                  None \<Rightarrow> None
                | Some (Inl e) \<Rightarrow> Some (Inl e)
                | Some (Inr unpacked') \<Rightarrow>
                    unpack_items d rt kvs unpack_nested unpacked'
                      (stores @ stores_i_k @ stores_i_v))))"

section \<open>What the walk is to return\<close>

text \<open>
  The object with every Store replaced: the containers and their order are kept, and a Store
  at address \<open>a\<close> gives way to \<open>L a\<close>. With \<open>L\<close> the wrapped value of the Store this is the
  argument with every Store replaced by its raw wrapped value.
\<close>

fun replace_val :: "(nat \<Rightarrow> pyval) \<Rightarrow> pyval \<Rightarrow> pyval"
and replace_obj :: "(nat \<Rightarrow> pyval) \<Rightarrow> pyobj \<Rightarrow> pyval" where
  "replace_val L PNone = PNone"
| "replace_val L (PInt n) = PInt n"
| "replace_val L (PStr s) = PStr s"
| "replace_val L (PList xs) = PList (map (\<lambda>x. Raw (replace_obj L x)) xs)"
| "replace_val L (PTuple xs) = PTuple (map (\<lambda>x. Raw (replace_obj L x)) xs)"
| "replace_val L (PDict kvs) =
     PDict (map (\<lambda>(k, v). (Raw (replace_obj L k), Raw (replace_obj L v))) kvs)"
| "replace_obj L (Raw v) = replace_val L v"
| "replace_obj L (PStore a) = L a"

abbreviation strip_val :: "runtime \<Rightarrow> pyval \<Rightarrow> pyval" where
  "strip_val rt \<equiv> replace_val (Store_value rt)"

abbreviation strip_obj :: "runtime \<Rightarrow> pyobj \<Rightarrow> pyval" where
  "strip_obj rt \<equiv> replace_obj (Store_value rt)"

text \<open>
  The Stores of an object in walk order (items left to right, a key before its value), a
  Store at address \<open>a\<close> contributing \<open>S a\<close>; with \<open>S a = [a]\<close>, the Stores that occur in it.
\<close>

fun collect_val :: "(nat \<Rightarrow> nat list) \<Rightarrow> pyval \<Rightarrow> nat list"
and collect_obj :: "(nat \<Rightarrow> nat list) \<Rightarrow> pyobj \<Rightarrow> nat list" where
  "collect_val S (PList xs) = concat (map (collect_obj S) xs)"
| "collect_val S (PTuple xs) = concat (map (collect_obj S) xs)"
| "collect_val S (PDict kvs) = concat (map (\<lambda>(k, v). collect_obj S k @ collect_obj S v) kvs)"
| "collect_val S v = []"
| "collect_obj S (Raw v) = collect_val S v"
| "collect_obj S (PStore a) = S a"

abbreviation stores_val :: "pyval \<Rightarrow> nat list" where
  "stores_val \<equiv> collect_val (\<lambda>a. [a])"

abbreviation stores_obj :: "pyobj \<Rightarrow> nat list" where
  "stores_obj \<equiv> collect_obj (\<lambda>a. [a])"

text \<open>
  Levels of nesting: \<open>height\<close> counts containers and takes a Store as a leaf, \<open>depth B\<close> takes
  a Store at address \<open>a\<close> to need \<open>B a\<close> levels.
\<close>

fun height_val :: "pyval \<Rightarrow> nat"
and height_obj :: "pyobj \<Rightarrow> nat" where
  "height_val (PList xs) = Suc (Max (set (0 # map height_obj xs)))"
| "height_val (PTuple xs) = Suc (Max (set (0 # map height_obj xs)))"
| "height_val (PDict kvs) =
     Suc (Max (set (0 # map (\<lambda>(k, v). max (height_obj k) (height_obj v)) kvs)))"
| "height_val v = 0"
| "height_obj (Raw v) = height_val v"
| "height_obj (PStore a) = 0"

fun depth_val :: "(nat \<Rightarrow> nat) \<Rightarrow> pyval \<Rightarrow> nat"
and depth_obj :: "(nat \<Rightarrow> nat) \<Rightarrow> pyobj \<Rightarrow> nat" where
  "depth_val B (PList xs) = Suc (Max (set (0 # map (depth_obj B) xs)))"
| "depth_val B (PTuple xs) = Suc (Max (set (0 # map (depth_obj B) xs)))"
| "depth_val B (PDict kvs) =
     Suc (Max (set (0 # map (\<lambda>(k, v). max (depth_obj B k) (depth_obj B v)) kvs)))"
| "depth_val B v = 0"
| "depth_obj B (Raw v) = depth_val B v"
| "depth_obj B (PStore a) = B a"

text \<open>
  The levels a walk of an object goes down: a Store is a leaf of the walk, unless
  \<^verbatim>\<open>unpack_nested\<close> is set and the walk goes on into the value it wraps.
\<close>

definition walk_depth :: "runtime \<Rightarrow> bool \<Rightarrow> pyobj \<Rightarrow> nat" where
  "walk_depth rt unpack_nested obj =
     depth_obj (\<lambda>a. if unpack_nested then height_val (Store_value rt a) else 0) obj"

text \<open>A value that holds no Store.\<close>

fun store_free_val :: "pyval \<Rightarrow> bool"
and store_free_obj :: "pyobj \<Rightarrow> bool" where
  "store_free_val (PList xs) = list_all store_free_obj xs"
| "store_free_val (PTuple xs) = list_all store_free_obj xs"
| "store_free_val (PDict kvs) = list_all (\<lambda>(k, v). store_free_obj k \<and> store_free_obj v) kvs"
| "store_free_val v = True"
| "store_free_obj (Raw v) = store_free_val v"
| "store_free_obj (PStore a) = False"

text \<open>A hashable value that holds no Store: None, an int, a string, or a tuple of such.\<close>

fun plain_key :: "pyval \<Rightarrow> bool"
and plain_key_obj :: "pyobj \<Rightarrow> bool" where
  "plain_key (PList xs) = False"
| "plain_key (PDict kvs) = False"
| "plain_key (PTuple xs) = list_all plain_key_obj xs"
| "plain_key v = True"
| "plain_key_obj (Raw v) = plain_key v"
| "plain_key_obj (PStore a) = False"

text \<open>
  The keys of every dict of the object, once its Stores are replaced, are hashable and
  pairwise different.
\<close>

fun keys_ok_val :: "(nat \<Rightarrow> pyval) \<Rightarrow> pyval \<Rightarrow> bool"
and keys_ok_obj :: "(nat \<Rightarrow> pyval) \<Rightarrow> pyobj \<Rightarrow> bool" where
  "keys_ok_val L (PList xs) = list_all (keys_ok_obj L) xs"
| "keys_ok_val L (PTuple xs) = list_all (keys_ok_obj L) xs"
| "keys_ok_val L (PDict kvs) =
     (list_all (\<lambda>(k, v). plain_key (replace_obj L k)) kvs \<and>
      distinct (map (\<lambda>(k, v). replace_obj L k) kvs) \<and>
      list_all (\<lambda>(k, v). keys_ok_obj L k \<and> keys_ok_obj L v) kvs)"
| "keys_ok_val L v = True"
| "keys_ok_obj L (Raw v) = keys_ok_val L v"
| "keys_ok_obj L (PStore a) = True"

text \<open>
  No Store nested inside another Store: the value wrapped by each Store of the object holds
  no Store. The keys condition for a walk: on the dicts of the object, and with
  \<^verbatim>\<open>unpack_nested\<close> set also on the dicts inside the values its Stores wrap, which the walk
  then rebuilds too.
\<close>

definition no_nested_Store :: "runtime \<Rightarrow> pyobj \<Rightarrow> bool" where
  "no_nested_Store rt obj = list_all (\<lambda>a. store_free_val (Store_value rt a)) (stores_obj obj)"

definition keys_distinct :: "runtime \<Rightarrow> bool \<Rightarrow> pyobj \<Rightarrow> bool" where
  "keys_distinct rt unpack_nested obj =
     (keys_ok_obj (Store_value rt) obj \<and>
      (\<not> unpack_nested \<or>
       list_all (\<lambda>a. keys_ok_val (Store_value rt) (Store_value rt a)) (stores_obj obj)))"

text \<open>
  Stores nested in Stores, to any number of levels. \<open>unwrap n rt a\<close> is the value of the Store
  at \<open>a\<close> with the Stores inside it replaced \<open>n\<close> levels deep, \<open>collected n rt a\<close> the Stores
  met on the way, those inside a Store before the Store, and \<open>deep_depth n rt a\<close> the levels
  of nesting in all. \<open>nested_ok n rt a\<close>: the Stores are nested at most \<open>n\<close> levels below \<open>a\<close>
  and the keys of the dicts are hashable and different at every level.
\<close>

primrec unwrap :: "nat \<Rightarrow> runtime \<Rightarrow> nat \<Rightarrow> pyval" where
  "unwrap 0 rt a = Store_value rt a"
| "unwrap (Suc n) rt a = replace_val (unwrap n rt) (Store_value rt a)"

primrec collected :: "nat \<Rightarrow> runtime \<Rightarrow> nat \<Rightarrow> nat list" where
  "collected 0 rt a = [a]"
| "collected (Suc n) rt a = collect_val (collected n rt) (Store_value rt a) @ [a]"

primrec deep_depth :: "nat \<Rightarrow> runtime \<Rightarrow> nat \<Rightarrow> nat" where
  "deep_depth 0 rt a = height_val (Store_value rt a)"
| "deep_depth (Suc n) rt a = depth_val (deep_depth n rt) (Store_value rt a)"

primrec nested_ok :: "nat \<Rightarrow> runtime \<Rightarrow> nat \<Rightarrow> bool" where
  "nested_ok 0 rt a =
     (store_free_val (Store_value rt a) \<and> keys_ok_val (Store_value rt) (Store_value rt a))"
| "nested_ok (Suc n) rt a =
     (list_all (nested_ok n rt) (stores_val (Store_value rt a)) \<and>
      keys_ok_val (unwrap n rt) (Store_value rt a))"

section \<open>Hashing and boolean coercion\<close>

text \<open>
  The built-in \<^verbatim>\<open>hash\<close> on plain values. An int hashes as CPython computes it (reduction
  modulo the Mersenne prime \<open>2^61 - 1\<close>, with \<open>-1\<close> replaced by \<open>-2\<close>); the hash of the other
  values (salted for strings) is left to the parameter \<open>other\<close>.
\<close>

definition hash_int :: "int \<Rightarrow> int" where
  "hash_int n =
     (let h = sgn n * (\<bar>n\<bar> mod (2 ^ 61 - 1)) in if h = - 1 then - 2 else h)"

definition py_hash :: "(pyval \<Rightarrow> int) \<Rightarrow> pyval \<Rightarrow> int" where
  "py_hash other v = (case v of PInt n \<Rightarrow> hash_int n | _ \<Rightarrow> other v)"

text \<open>\<^verbatim>\<open>Store.__hash__\<close> (lines 147-148): \<^verbatim>\<open>hash(self.__wrapped__)\<close>.\<close>

definition Store_hash :: "(pyval \<Rightarrow> int) \<Rightarrow> runtime \<Rightarrow> nat \<Rightarrow> int" where
  "Store_hash other rt a = py_hash other (wrapped (heap rt a))"

text \<open>The built-in \<^verbatim>\<open>bool\<close> on plain values.\<close>

fun py_bool :: "pyval \<Rightarrow> bool" where
  "py_bool PNone = False"
| "py_bool (PInt n) = (n \<noteq> 0)"
| "py_bool (PStr s) = (s \<noteq> [])"
| "py_bool (PList xs) = (xs \<noteq> [])"
| "py_bool (PTuple xs) = (xs \<noteq> [])"
| "py_bool (PDict kvs) = (kvs \<noteq> [])"

definition bool_msg :: string where
  "bool_msg = ''bool(store) is not reactive. If you are using the store in a logical context and you want to preserve reactivity, you should use `mk.to_bool` (equivalent to `bool(store)`) or `mk.cnot` (equivalent to `not store`).''"

text \<open>\<^verbatim>\<open>Store.__bool__\<close> (lines 154-165): the result and the state after the call.\<close>

definition Store_bool :: "nat \<Rightarrow> runtime \<Rightarrow> bool \<times> runtime" where
  "Store_bool a rt =
     (let rt1 = (if reactive rt then warn bool_msg rt else rt)
      in (py_bool (wrapped (heap rt1 a)), rt1))"

section \<open>Reactive calls, operators and item deletion\<close>

text \<open>
  A method body: it runs in a state on the receiver (a Store, by address) and the other
  arguments, and returns a result or an error, and the state after it.
\<close>

type_synonym py_method = "runtime \<Rightarrow> nat \<Rightarrow> pyval list \<Rightarrow> (py_error + pyobj) \<times> runtime"

text \<open>
  Modelled from the spec: the decorator \<^verbatim>\<open>_reactive\<close> of \<^verbatim>\<open>reactivity.py\<close> is not among the
  source files. Following section 4.3 of the specification, a decorated method called on
  the Store \<open>s\<close> first unpacks the Stores among its arguments (shallow, through
  \<^verbatim>\<open>_unpack_stores_from_object\<close> with the recursion depth \<open>d\<close> at hand; what the walk
  raises is passed on and the state is as before). Outside a reactive
  context it then runs the body on the raw values and returns its result, and no graph node
  is made. In a reactive context it runs the body with reactivity suspended; an error of
  the body is passed on and nothing is registered; otherwise the result is wrapped in a new
  Store (a result that is a Store already stays that Store, as in \<^verbatim>\<open>make_store\<close>), one
  operation node with the collected Stores as inputs and the result as output is
  registered, and the Store is returned.
\<close>

definition reactive_call ::
    "nat \<Rightarrow> py_method \<Rightarrow> nat \<Rightarrow> pyobj list \<Rightarrow> runtime \<Rightarrow> (py_error + pyobj) \<times> runtime" where
  "reactive_call d fn s args rt =
     (case unpack_stores_from_object d rt (Raw (PTuple (PStore s # args))) False of
        None \<Rightarrow> (Inl RecursionError, rt)
      | Some (Inl e) \<Rightarrow> (Inl e, rt)
      | Some (Inr (unpacked, stores)) \<Rightarrow>
          (let raw_args = (case unpacked of PTuple xs \<Rightarrow> map (proxied rt) (tl xs) | _ \<Rightarrow> [])
           in if \<not> reactive rt then fn rt s raw_args
              else
                (case fn (rt\<lparr>reactive := False\<rparr>) s raw_args of
                   (Inl e, rt1) \<Rightarrow> (Inl e, rt1\<lparr>reactive := True\<rparr>)
                 | (Inr r, rt1) \<Rightarrow>
                     (let (out, rt2) = make_store r rt1
                      in (Inr (PStore out),
                          rt2\<lparr>reactive := True,
                              nodes := nodes rt2 @
                                [\<lparr>op_inputs = map (\<lambda>a. sid (heap rt a)) stores,
                                  op_outputs = [sid (heap rt2 out)]\<rparr>]\<rparr>)))))"

text \<open>
  The binary operators that have an in-place form in the class (lines 285-365), and the
  name each carries between the underscores.
\<close>

datatype binop =
  Add | Sub | Mul | Div | TrueDiv | FloorDiv | Mod | Pow | LShift | RShift | And | Xor | Or

fun op_name :: "binop \<Rightarrow> string" where
  "op_name Add = ''add''"
| "op_name Sub = ''sub''"
| "op_name Mul = ''mul''"
| "op_name Div = ''div''"
| "op_name TrueDiv = ''truediv''"
| "op_name FloorDiv = ''floordiv''"
| "op_name Mod = ''mod''"
| "op_name Pow = ''pow''"
| "op_name LShift = ''lshift''"
| "op_name RShift = ''rshift''"
| "op_name And = ''and''"
| "op_name Xor = ''xor''"
| "op_name Or = ''or''"

text \<open>
  The body of an out-of-place operator, \<^verbatim>\<open>return super().__add__(other)\<close> and its like:
  the proxy applies the operator of the wrapped value. What an operator does on plain values
  belongs to those values, so it is the parameter \<open>ap\<close>.
\<close>

definition binop_body :: "(binop \<Rightarrow> pyval \<Rightarrow> pyval \<Rightarrow> py_error + pyval) \<Rightarrow> binop \<Rightarrow> py_method" where
  "binop_body ap bop rt s args =
     (case args of
        [other] \<Rightarrow>
          (case ap bop (wrapped (heap rt s)) other of
             Inl e \<Rightarrow> (Inl e, rt)
           | Inr r \<Rightarrow> (Inr (Raw r), rt))
      | _ \<Rightarrow> (Inl TypeError, rt))"

text \<open>The decorated operators \<^verbatim>\<open>__add__\<close>, \<^verbatim>\<open>__sub__\<close>, ... (lines 171-225).\<close>

definition Store_binop ::
    "(binop \<Rightarrow> pyval \<Rightarrow> pyval \<Rightarrow> py_error + pyval) \<Rightarrow> nat \<Rightarrow> binop \<Rightarrow> nat \<Rightarrow> pyobj \<Rightarrow> runtime
       \<Rightarrow> (py_error + pyobj) \<times> runtime" where
  "Store_binop ap d bop s other rt = reactive_call d (binop_body ap bop) s [other] rt"

definition inplace_msg :: "binop \<Rightarrow> string" where
  "inplace_msg bop =
     ''Store.__i'' @ op_name bop @ ''__ is out-of-place. Use __'' @ op_name bop @ ''__ instead.''"

text \<open>The in-place operators \<^verbatim>\<open>__iadd__\<close>, \<^verbatim>\<open>__isub__\<close>, ... (lines 285-365).\<close>

definition Store_inplace ::
    "(binop \<Rightarrow> pyval \<Rightarrow> pyval \<Rightarrow> py_error + pyval) \<Rightarrow> nat \<Rightarrow> binop \<Rightarrow> nat \<Rightarrow> pyobj \<Rightarrow> runtime
       \<Rightarrow> (py_error + pyobj) \<times> runtime" where
  "Store_inplace ap d bop s other rt =
     Store_binop ap d bop s other (warn (inplace_msg bop) rt)"







section \<open>Example states\<close>

text \<open>
  Four Stores: \<open>storeX\<close> at address 0 wraps 7, \<open>storeY\<close> at address 1 wraps \<open>"y"\<close>, the
  Store at address 2 wraps the list \<open>[storeX, 5]\<close>, and the Store at address 3, made with
  \<^verbatim>\<open>backend_only=True\<close>, wraps the dict \<^verbatim>\<open>{"a": 1, "b": 2}\<close>.
\<close>

definition scenario_rt :: runtime where
  "scenario_rt =
     \<lparr>heap = (\<lambda>a. \<lparr>sid = a,
                     wrapped = (if a = 0 then PInt 7 else if a = 1 then PStr ''y''
                                else if a = 2 then PList [PStore 0, Raw (PInt 5)]
                                else if a = 3 then PDict [(Raw (PStr ''a''), Raw (PInt 1)),
                                                          (Raw (PStr ''b''), Raw (PInt 2))]
                                else PNone),
                     backend_only = (a = 3)\<rparr>),
      next_addr = 4, reactive = True, warnings = [], queue = [], nodes = []\<rparr>"

text \<open>The argument \<^verbatim>\<open>{"a": storeX, "b": [storeY, 5]}\<close>.\<close>

definition scenario_arg :: pyobj where
  "scenario_arg =
     Raw (PDict [(Raw (PStr ''a''), PStore 0),
                 (Raw (PStr ''b''), Raw (PList [PStore 1, Raw (PInt 5)]))])"

text \<open>
  Two Stores that wrap the same value 1, used as the two keys of a dict: the state after
  \<^verbatim>\<open>d = {s0: "a", s1: "b"}\<close> and a later \<^verbatim>\<open>s1.set(1)\<close>.
\<close>

definition twin_rt :: runtime where
  "twin_rt =
     \<lparr>heap = (\<lambda>a. \<lparr>sid = a, wrapped = PInt 1, backend_only = False\<rparr>),
      next_addr = 2, reactive = False, warnings = [], queue = [], nodes = []\<rparr>"

definition twin_arg :: pyobj where
  "twin_arg = Raw (PDict [(PStore 0, Raw (PStr ''a'')), (PStore 1, Raw (PStr ''b''))])"

text \<open>A hash for the values that are not ints, where one is needed to run an example.\<close>

definition zero_hash :: "pyval \<Rightarrow> int" where
  "zero_hash v = 0"

text \<open>Addition, subtraction and multiplication of ints, to run an operator in an example.\<close>

fun int_arith :: "binop \<Rightarrow> pyval \<Rightarrow> pyval \<Rightarrow> py_error + pyval" where
  "int_arith Add (PInt a) (PInt b) = Inr (PInt (a + b))"
| "int_arith Sub (PInt a) (PInt b) = Inr (PInt (a - b))"
| "int_arith Mul (PInt a) (PInt b) = Inr (PInt (a * b))"
| "int_arith bop x y = Inl TypeError"


text \<open>
  A Store that wraps a list and is the key of a dict: the state after
  \<^verbatim>\<open>d = {s0: "a"}\<close> and a later \<^verbatim>\<open>s0.set([1])\<close>.
\<close>

definition listkey_rt :: runtime where
  "listkey_rt =
     \<lparr>heap = (\<lambda>a. \<lparr>sid = a, wrapped = PList [Raw (PInt 1)], backend_only = False\<rparr>),
      next_addr = 1, reactive = False, warnings = [], queue = [], nodes = []\<rparr>"

definition listkey_arg :: pyobj where
  "listkey_arg = Raw (PDict [(PStore 0, Raw (PStr ''a''))])"

text \<open>
  Stores nested two levels deep: the Store at address 0 wraps 7, the Store at address 1
  wraps the list \<open>[s0, 5]\<close>, and the Store at address 2 wraps the dict \<^verbatim>\<open>{"k": s1}\<close>.
\<close>

definition nested_rt :: runtime where
  "nested_rt =
     \<lparr>heap = (\<lambda>a. \<lparr>sid = a,
                     wrapped = (if a = 0 then PInt 7
                                else if a = 1 then PList [PStore 0, Raw (PInt 5)]
                                else if a = 2 then PDict [(Raw (PStr ''k''), PStore 1)]
                                else PNone),
                     backend_only = False\<rparr>),
      next_addr = 3, reactive = False, warnings = [], queue = [], nodes = []\<rparr>"

section \<open>Unpacking over an object graph\<close>

text \<open>
  Python lists, tuples and dicts are objects held by reference, so a container can hold
  itself (\<^verbatim>\<open>l = []; l.append(l)\<close>), which no tree can. To follow the walk on such
  arguments, the objects are nodes of a graph: a node is a plain object or a Store wrapping
  one, and a container holds the addresses of its items.
\<close>

datatype gplain =
    GNone
  | GInt int
  | GStr string
  | GList "nat list"
  | GTuple "nat list"
  | GDict "(nat \<times> nat) list"

datatype gobj = Plain gplain | GStore gplain

type_synonym graph = "nat \<Rightarrow> gobj"

text \<open>
  What the walk returns: the object it was given (\<open>GRef\<close>), the value wrapped by a Store it
  was given (\<open>GValue\<close>), or a container it has built from such results.
\<close>

datatype gval =
    GRef nat
  | GValue nat
  | GNewList "gval list"
  | GNewTuple "gval list"
  | GNewDict "(gval \<times> gval) list"

fun g_is_Store :: "gobj \<Rightarrow> bool" where
  "g_is_Store (GStore w) = True"
| "g_is_Store (Plain w) = False"

fun g_proxied :: "gobj \<Rightarrow> gplain" where
  "g_proxied (GStore w) = w"
| "g_proxied (Plain w) = w"

text \<open>
  \<^verbatim>\<open>unpacked[k] = v\<close> on the dict under construction belongs to the built-in dict, which
  hashes the key and can raise \<open>TypeError\<close> for an unhashable one: here it is the parameter
  \<open>ins\<close>, that returns the dict with the item set or the error raised.
\<close>

type_synonym dict_insert =
  "(gval \<times> gval) list \<Rightarrow> gval \<Rightarrow> gval \<Rightarrow> py_error + (gval \<times> gval) list"

text \<open>
  \<^verbatim>\<open>_unpack_stores_from_object\<close> (lines 521-580) on the object at address \<open>a\<close>, with the
  depth of recursion bounded as before: \<open>None\<close> is a walk that has not returned within that
  depth, \<open>Some (Inl e)\<close> one in which an assignment into a dict raised \<open>e\<close>, \<open>Some (Inr r)\<close>
  one that returned \<open>r\<close>. The function has no other way to fail: there is no \<^verbatim>\<open>raise\<close> in
  it.
\<close>

fun unpack_graph ::
    "dict_insert \<Rightarrow> nat \<Rightarrow> graph \<Rightarrow> nat \<Rightarrow> bool \<Rightarrow> (py_error + gval \<times> nat list) option"
and unpack_graph_seq ::
    "dict_insert \<Rightarrow> nat \<Rightarrow> graph \<Rightarrow> nat list \<Rightarrow> bool \<Rightarrow> gval list \<Rightarrow> nat list
       \<Rightarrow> (py_error + gval list \<times> nat list) option"
and unpack_graph_items ::
    "dict_insert \<Rightarrow> nat \<Rightarrow> graph \<Rightarrow> (nat \<times> nat) list \<Rightarrow> bool
       \<Rightarrow> (gval \<times> gval) list \<Rightarrow> nat list \<Rightarrow> (py_error + (gval \<times> gval) list \<times> nat list) option"
where
  "unpack_graph ins 0 g a unpack_nested = None"
| "unpack_graph ins (Suc d) g a unpack_nested =
     (if \<not> unpack_nested \<and> g_is_Store (g a) then Some (Inr (GValue a, [a]))
      else
        (case g_proxied (g a) of
           GList xs \<Rightarrow>
             (case unpack_graph_seq ins d g xs unpack_nested [] [] of
                None \<Rightarrow> None
              | Some (Inl e) \<Rightarrow> Some (Inl e)
              | Some (Inr (unpacked, stores)) \<Rightarrow>
                  Some (Inr (GNewList unpacked,
                             if g_is_Store (g a) then stores @ [a] else stores)))
         | GTuple xs \<Rightarrow>
             (case unpack_graph_seq ins d g xs unpack_nested [] [] of
                None \<Rightarrow> None
              | Some (Inl e) \<Rightarrow> Some (Inl e)
              | Some (Inr (unpacked, stores)) \<Rightarrow>
                  Some (Inr (GNewTuple unpacked,
                             if g_is_Store (g a) then stores @ [a] else stores)))
         | GDict kvs \<Rightarrow>
             (case unpack_graph_items ins d g kvs unpack_nested [] [] of
                None \<Rightarrow> None
              | Some (Inl e) \<Rightarrow> Some (Inl e)
              | Some (Inr (unpacked, stores)) \<Rightarrow>
                  Some (Inr (GNewDict unpacked,
                             if g_is_Store (g a) then stores @ [a] else stores)))
         | w \<Rightarrow> (if g_is_Store (g a) then Some (Inr (GValue a, [a]))
                 else Some (Inr (GRef a, [])))))"
| "unpack_graph_seq ins d g [] unpack_nested unpacked stores = Some (Inr (unpacked, stores))"
| "unpack_graph_seq ins d g (x # xs) unpack_nested unpacked stores =
     (case unpack_graph ins d g x unpack_nested of
        None \<Rightarrow> None
      | Some (Inl e) \<Rightarrow> Some (Inl e)
      | Some (Inr (x', stores_i)) \<Rightarrow>
          unpack_graph_seq ins d g xs unpack_nested (unpacked @ [x']) (stores @ stores_i))"
| "unpack_graph_items ins d g [] unpack_nested unpacked stores = Some (Inr (unpacked, stores))"
| "unpack_graph_items ins d g ((k, v) # kvs) unpack_nested unpacked stores =
     (case unpack_graph ins d g k unpack_nested of
        None \<Rightarrow> None
      | Some (Inl e) \<Rightarrow> Some (Inl e)
      | Some (Inr (k', stores_i_k)) \<Rightarrow>
          (case unpack_graph ins d g v unpack_nested of
             None \<Rightarrow> None
           | Some (Inl e) \<Rightarrow> Some (Inl e)
           | Some (Inr (v', stores_i_v)) \<Rightarrow>
               (case ins unpacked k' v' of
                  Inl e \<Rightarrow> Some (Inl e)
                | Inr unpacked' \<Rightarrow>
                    unpack_graph_items ins d g kvs unpack_nested unpacked'
                      (stores @ stores_i_k @ stores_i_v))))"

text \<open>
  The objects the walk steps into from the object at \<open>a\<close>: the items of a list or tuple, the
  keys and values of a dict; for a Store, those of its wrapped value when \<^verbatim>\<open>unpack_nested\<close>
  is set and none otherwise.
\<close>

fun items_of :: "gplain \<Rightarrow> nat list" where
  "items_of (GList xs) = xs"
| "items_of (GTuple xs) = xs"
| "items_of (GDict kvs) = concat (map (\<lambda>(k, v). [k, v]) kvs)"
| "items_of w = []"

definition walked :: "graph \<Rightarrow> bool \<Rightarrow> nat \<Rightarrow> nat list" where
  "walked g unpack_nested a =
     (if \<not> unpack_nested \<and> g_is_Store (g a) then [] else items_of (g_proxied (g a)))"

text \<open>\<open>contains g n a b\<close>: the object at \<open>a\<close> holds the object at \<open>b\<close>, directly or through items.\<close>

inductive contains :: "graph \<Rightarrow> bool \<Rightarrow> nat \<Rightarrow> nat \<Rightarrow> bool" for g :: graph and n :: bool where
  item: "b \<in> set (walked g n a) \<Longrightarrow> contains g n a b"
| deeper: "b \<in> set (walked g n a) \<Longrightarrow> contains g n b c \<Longrightarrow> contains g n a c"

text \<open>The list that holds itself: \<^verbatim>\<open>l = []; l.append(l)\<close>, at address 0.\<close>

definition self_list :: graph where
  "self_list a = (if a = 0 then Plain (GList [0]) else Plain GNone)"

text \<open>
  An insertion that takes two keys for the same when they are the same result and raises
  nothing, to run the walk in an example.
\<close>

fun same_key_insert :: dict_insert where
  "same_key_insert [] k v = Inr [(k, v)]"
| "same_key_insert ((k', v') # kvs) k v =
     (if k' = k then Inr ((k', v) # kvs)
      else (case same_key_insert kvs k v of
              Inl e \<Rightarrow> Inl e
            | Inr kvs' \<Rightarrow> Inr ((k', v') # kvs')))"

code_pred contains .

section \<open>Lemmas\<close>

lemma hash_val_plain:
  "plain_key v \<longrightarrow> hash_val d rt v = Some (Inr v)"
  and hash_key_plain_obj:
  "plain_key_obj x \<longrightarrow> (\<exists>v. x = Raw v \<and> hash_key d rt x = Some (Inr v))"
proof (induction v and x)
  case (PTuple xs)
  show ?case
  proof
    assume p: "plain_key (PTuple xs)"
    have el: "\<exists>v. x = Raw v \<and> hash_key d rt x = Some (Inr v)" if x: "x \<in> set xs" for x
      using PTuple.IH[OF x] p x by (simp add: list_all_iff)
    have "hash_keys d rt ys = Some (Inr ys)" if "set ys \<subseteq> set xs" for ys
      using that
    proof (induction ys)
      case Nil
      show ?case by simp
    next
      case (Cons y ys)
      then obtain v where "y = Raw v" "hash_key d rt y = Some (Inr v)" using el[of y] by auto
      with Cons show ?case by simp
    qed
    then have "hash_keys d rt xs = Some (Inr xs)" by simp
    then show "hash_val d rt (PTuple xs) = Some (Inr (PTuple xs))" by simp
  qed
qed auto

lemma unpack_seq_all:
  "(\<And>x. x \<in> set xs \<Longrightarrow>
       unpack_stores_from_object d rt x n = Some (Inr (replace_obj L x, collect_obj S x)))
   \<Longrightarrow> unpack_seq d rt xs n acc ss =
       Some (Inr (acc @ map (\<lambda>x. Raw (replace_obj L x)) xs, ss @ concat (map (collect_obj S) xs)))"
  by (induction xs arbitrary: acc ss) simp_all

lemma dict_put_new:
  "\<forall>kv\<in>set acc. hash_key d rt (fst kv) \<noteq> Some (Inr c)
     \<Longrightarrow> dict_put d rt c acc k v = acc @ [(k, v)]"
  by (induction acc) auto

lemma unpack_items_all:
  assumes el: "\<And>k v. (k, v) \<in> set kvs \<Longrightarrow>
       unpack_stores_from_object d rt k n = Some (Inr (replace_obj L k, collect_obj S k)) \<and>
       unpack_stores_from_object d rt v n = Some (Inr (replace_obj L v, collect_obj S v))"
    and hk: "\<And>k v. (k, v) \<in> set (pre @ kvs) \<Longrightarrow>
       hash_key d rt (Raw (replace_obj L k)) = Some (Inr (replace_obj L k))"
    and di: "distinct (map (\<lambda>(k, v). replace_obj L k) (pre @ kvs))"
  shows "unpack_items d rt kvs n
           (map (\<lambda>(k, v). (Raw (replace_obj L k), Raw (replace_obj L v))) pre) ss =
         Some (Inr (map (\<lambda>(k, v). (Raw (replace_obj L k), Raw (replace_obj L v))) (pre @ kvs),
                    ss @ concat (map (\<lambda>(k, v). collect_obj S k @ collect_obj S v) kvs)))"
  using el hk di
proof (induction kvs arbitrary: pre ss)
  case Nil
  then show ?case by simp
next
  case (Cons kv kvs)
  obtain k v where kv: "kv = (k, v)" by (cases kv)
  let ?F = "\<lambda>(k, v). (Raw (replace_obj L k), Raw (replace_obj L v))"
  let ?c = "replace_obj L k"
  have here: "unpack_stores_from_object d rt k n = Some (Inr (replace_obj L k, collect_obj S k))"
             "unpack_stores_from_object d rt v n = Some (Inr (replace_obj L v, collect_obj S v))"
    using Cons.prems(1)[of k v] by (simp_all add: kv)
  have hc: "hash_key d rt (Raw ?c) = Some (Inr ?c)"
    using Cons.prems(2)[of k v] by (simp add: kv)
  have "hash_key d rt k' \<noteq> Some (Inr ?c)" if m: "(k', v') \<in> set (map ?F pre)" for k' v'
  proof -
    from m obtain k0 v0 where p: "(k0, v0) \<in> set pre" and k': "k' = Raw (replace_obj L k0)"
      by auto
    have "hash_key d rt k' = Some (Inr (replace_obj L k0))"
      using Cons.prems(2)[of k0 v0] p k' by simp
    moreover have "replace_obj L k0 \<noteq> ?c"
      using Cons.prems(3) p by (force simp: kv)
    ultimately show ?thesis by simp
  qed
  then have new: "\<forall>kv\<in>set (map ?F pre). hash_key d rt (fst kv) \<noteq> Some (Inr ?c)"
    by (metis prod.collapse)
  have put: "dict_setitem d rt (map ?F pre) (Raw ?c) (Raw (replace_obj L v))
               = Some (Inr (map ?F (pre @ [(k, v)])))"
    using hc by (simp add: dict_setitem_def dict_put_new[OF new])
  have rest: "unpack_items d rt kvs n (map ?F (pre @ [(k, v)])) ss' =
         Some (Inr (map ?F ((pre @ [(k, v)]) @ kvs),
                    ss' @ concat (map (\<lambda>(k, v). collect_obj S k @ collect_obj S v) kvs)))" for ss'
  proof (rule Cons.IH)
    show "unpack_stores_from_object d rt k' n = Some (Inr (replace_obj L k', collect_obj S k')) \<and>
          unpack_stores_from_object d rt v' n = Some (Inr (replace_obj L v', collect_obj S v'))"
      if "(k', v') \<in> set kvs" for k' v'
      using Cons.prems(1)[of k' v'] that by simp
    show "hash_key d rt (Raw (replace_obj L k')) = Some (Inr (replace_obj L k'))"
      if "(k', v') \<in> set ((pre @ [(k, v)]) @ kvs)" for k' v'
      using Cons.prems(2)[of k' v'] that by (auto simp: kv)
    show "distinct (map (\<lambda>(k, v). replace_obj L k) ((pre @ [(k, v)]) @ kvs))"
      using Cons.prems(3) by (simp add: kv)
  qed
  show ?case
    using here put rest by (simp add: kv del: map_append)
qed

lemma unpack_walk_val:
  "\<forall>d. depth_val B v < d \<longrightarrow> keys_ok_val L v \<longrightarrow>
      (\<forall>a\<in>set (stores_val v). (\<forall>d. B a < d \<longrightarrow>
             unpack_stores_from_object d rt (PStore a) n = Some (Inr (L a, S a)))) \<longrightarrow>
      unpack_stores_from_object d rt (Raw v) n = Some (Inr (replace_val L v, collect_val S v))"
  and unpack_walk_obj:
  "\<forall>d. depth_obj B x < d \<longrightarrow> keys_ok_obj L x \<longrightarrow>
      (\<forall>a\<in>set (stores_obj x). (\<forall>d. B a < d \<longrightarrow>
             unpack_stores_from_object d rt (PStore a) n = Some (Inr (L a, S a)))) \<longrightarrow>
      unpack_stores_from_object d rt x n = Some (Inr (replace_obj L x, collect_obj S x))"
proof (induction v and x)
  case PNone
  show ?case by (auto simp: gr0_conv_Suc)
next
  case (PInt i)
  show ?case by (auto simp: gr0_conv_Suc)
next
  case (PStr s)
  show ?case by (auto simp: gr0_conv_Suc)
next
  case (PList xs)
  show ?case
  proof (intro allI impI)
    fix d
    assume h: "depth_val B (PList xs) < d" and k: "keys_ok_val L (PList xs)"
      and l: "\<forall>a\<in>set (stores_val (PList xs)). (\<forall>d. B a < d \<longrightarrow>
             unpack_stores_from_object d rt (PStore a) n = Some (Inr (L a, S a)))"
    from h obtain d' where d: "d = Suc d'" by (cases d) auto
    have el: "unpack_stores_from_object d' rt x n = Some (Inr (replace_obj L x, collect_obj S x))"
      if x: "x \<in> set xs" for x
    proof -
      have "depth_obj B x < d'" using h d x by auto
      moreover have "keys_ok_obj L x" using k x by (simp add: list_all_iff)
      moreover have "\<forall>a\<in>set (stores_obj x). (\<forall>d. B a < d \<longrightarrow>
             unpack_stores_from_object d rt (PStore a) n = Some (Inr (L a, S a)))"
        using l x by auto
      ultimately show ?thesis using PList.IH[OF x] by blast
    qed
    show "unpack_stores_from_object d rt (Raw (PList xs)) n
            = Some (Inr (replace_val L (PList xs), collect_val S (PList xs)))"
      by (simp add: d unpack_seq_all[of xs d' rt n L S, OF el])
  qed
next
  case (PTuple xs)
  show ?case
  proof (intro allI impI)
    fix d
    assume h: "depth_val B (PTuple xs) < d" and k: "keys_ok_val L (PTuple xs)"
      and l: "\<forall>a\<in>set (stores_val (PTuple xs)). (\<forall>d. B a < d \<longrightarrow>
             unpack_stores_from_object d rt (PStore a) n = Some (Inr (L a, S a)))"
    from h obtain d' where d: "d = Suc d'" by (cases d) auto
    have el: "unpack_stores_from_object d' rt x n = Some (Inr (replace_obj L x, collect_obj S x))"
      if x: "x \<in> set xs" for x
    proof -
      have "depth_obj B x < d'" using h d x by auto
      moreover have "keys_ok_obj L x" using k x by (simp add: list_all_iff)
      moreover have "\<forall>a\<in>set (stores_obj x). (\<forall>d. B a < d \<longrightarrow>
             unpack_stores_from_object d rt (PStore a) n = Some (Inr (L a, S a)))"
        using l x by auto
      ultimately show ?thesis using PTuple.IH[OF x] by blast
    qed
    show "unpack_stores_from_object d rt (Raw (PTuple xs)) n
            = Some (Inr (replace_val L (PTuple xs), collect_val S (PTuple xs)))"
      by (simp add: d unpack_seq_all[of xs d' rt n L S, OF el])
  qed
next
  case (PDict kvs)
  show ?case
  proof (intro allI impI)
    fix d
    assume h: "depth_val B (PDict kvs) < d" and k: "keys_ok_val L (PDict kvs)"
      and l: "\<forall>a\<in>set (stores_val (PDict kvs)). (\<forall>d. B a < d \<longrightarrow>
             unpack_stores_from_object d rt (PStore a) n = Some (Inr (L a, S a)))"
    from h obtain d' where d: "d = Suc d'" by (cases d) auto
    have sub: "\<forall>a\<in>set (stores_obj k'). (\<forall>d. B a < d \<longrightarrow>
             unpack_stores_from_object d rt (PStore a) n = Some (Inr (L a, S a)))"
         "\<forall>a\<in>set (stores_obj v'). (\<forall>d. B a < d \<longrightarrow>
             unpack_stores_from_object d rt (PStore a) n = Some (Inr (L a, S a)))"
         "depth_obj B k' < d'" "depth_obj B v' < d'"
      if kv: "(k', v') \<in> set kvs" for k' v'
      using l h d kv by (fastforce, fastforce, force, force)
    have el: "unpack_stores_from_object d' rt k' n = Some (Inr (replace_obj L k', collect_obj S k')) \<and>
              unpack_stores_from_object d' rt v' n = Some (Inr (replace_obj L v', collect_obj S v'))"
      if kv: "(k', v') \<in> set kvs" for k' v'
    proof -
      have "keys_ok_obj L k'" "keys_ok_obj L v'"
        using k kv by (auto simp: list_all_iff)
      moreover have "k' \<in> Basic_BNFs.fsts (k', v')" "v' \<in> Basic_BNFs.snds (k', v')" by simp_all
      ultimately show ?thesis
        using PDict.IH(1)[OF kv] PDict.IH(2)[OF kv] sub[OF kv] by blast
    qed
    have hk: "hash_key d' rt (Raw (replace_obj L k')) = Some (Inr (replace_obj L k'))"
      if kv: "(k', v') \<in> set ([] @ kvs)" for k' v'
    proof -
      from kv have kv': "(k', v') \<in> set kvs" by simp
      have "plain_key (replace_obj L k')" using k kv' by (auto simp: list_all_iff)
      then show ?thesis using hash_val_plain[of "replace_obj L k'" d' rt] by simp
    qed
    have dk: "distinct (map (\<lambda>(k, v). replace_obj L k) ([] @ kvs))"
      using k by simp
    show "unpack_stores_from_object d rt (Raw (PDict kvs)) n
            = Some (Inr (replace_val L (PDict kvs), collect_val S (PDict kvs)))"
      using unpack_items_all[of kvs d' rt n L S "[]" "[]", OF el hk dk]
      by (simp add: d)
  qed
next
  case (Raw v)
  then show ?case by simp
next
  case (PStore a)
  show ?case by simp
qed

lemma store_free_val_facts:
  "store_free_val v \<longrightarrow>
     replace_val L v = v \<and> replace_val L' v = v \<and> collect_val S v = [] \<and>
     depth_val B v = height_val v \<and> keys_ok_val L v = keys_ok_val L' v"
  and store_free_obj_facts:
  "store_free_obj x \<longrightarrow>
     Raw (replace_obj L x) = x \<and> Raw (replace_obj L' x) = x \<and> collect_obj S x = [] \<and>
     depth_obj B x = height_obj x \<and> keys_ok_obj L x = keys_ok_obj L' x"
proof (induction v and x)
  case (PList xs)
  show ?case
  proof
    assume sf: "store_free_val (PList xs)"
    have e: "Raw (replace_obj L x) = x \<and> Raw (replace_obj L' x) = x \<and> collect_obj S x = [] \<and>
             depth_obj B x = height_obj x \<and> keys_ok_obj L x = keys_ok_obj L' x"
      if "x \<in> set xs" for x
    proof -
      have "store_free_obj x" using sf that by (simp add: list_all_iff)
      then show ?thesis using PList.IH[OF that] by blast
    qed
    have 1: "map (\<lambda>x. Raw (replace_obj L x)) xs = xs" by (rule map_idI) (use e in auto)
    have i1: "map (\<lambda>x. Raw (replace_obj L' x)) xs = xs" by (rule map_idI) (use e in auto)
    have 2: "map (collect_obj S) xs = map (\<lambda>_. []) xs" by (rule map_cong) (use e in auto)
    have 3: "map (depth_obj B) xs = map height_obj xs" by (rule map_cong) (use e in auto)
    have 4: "list_all (keys_ok_obj L) xs = list_all (keys_ok_obj L') xs"
      using e by (auto simp: list_all_iff)
    show "replace_val L (PList xs) = PList xs \<and> replace_val L' (PList xs) = PList xs \<and>
          collect_val S (PList xs) = [] \<and>
          depth_val B (PList xs) = height_val (PList xs) \<and>
          keys_ok_val L (PList xs) = keys_ok_val L' (PList xs)"
      by (simp add: 1 i1 2 3 4)
  qed
next
  case (PTuple xs)
  show ?case
  proof
    assume sf: "store_free_val (PTuple xs)"
    have e: "Raw (replace_obj L x) = x \<and> Raw (replace_obj L' x) = x \<and> collect_obj S x = [] \<and>
             depth_obj B x = height_obj x \<and> keys_ok_obj L x = keys_ok_obj L' x"
      if "x \<in> set xs" for x
    proof -
      have "store_free_obj x" using sf that by (simp add: list_all_iff)
      then show ?thesis using PTuple.IH[OF that] by blast
    qed
    have 1: "map (\<lambda>x. Raw (replace_obj L x)) xs = xs" by (rule map_idI) (use e in auto)
    have i1: "map (\<lambda>x. Raw (replace_obj L' x)) xs = xs" by (rule map_idI) (use e in auto)
    have 2: "map (collect_obj S) xs = map (\<lambda>_. []) xs" by (rule map_cong) (use e in auto)
    have 3: "map (depth_obj B) xs = map height_obj xs" by (rule map_cong) (use e in auto)
    have 4: "list_all (keys_ok_obj L) xs = list_all (keys_ok_obj L') xs"
      using e by (auto simp: list_all_iff)
    show "replace_val L (PTuple xs) = PTuple xs \<and> replace_val L' (PTuple xs) = PTuple xs \<and>
          collect_val S (PTuple xs) = [] \<and>
          depth_val B (PTuple xs) = height_val (PTuple xs) \<and>
          keys_ok_val L (PTuple xs) = keys_ok_val L' (PTuple xs)"
      by (simp add: 1 i1 2 3 4)
  qed
next
  case (PDict kvs)
  show ?case
  proof
    assume sf: "store_free_val (PDict kvs)"
    have e: "Raw (replace_obj L k) = k \<and> Raw (replace_obj L' k) = k \<and>
             collect_obj S k = [] \<and> depth_obj B k = height_obj k \<and>
             keys_ok_obj L k = keys_ok_obj L' k \<and>
             Raw (replace_obj L v) = v \<and> Raw (replace_obj L' v) = v \<and>
             collect_obj S v = [] \<and> depth_obj B v = height_obj v \<and>
             keys_ok_obj L v = keys_ok_obj L' v"
      if kv: "(k, v) \<in> set kvs" for k v
    proof -
      have "store_free_obj k" "store_free_obj v" using sf kv by (auto simp: list_all_iff)
      moreover have "k \<in> Basic_BNFs.fsts (k, v)" "v \<in> Basic_BNFs.snds (k, v)" by simp_all
      ultimately show ?thesis using PDict.IH(1)[OF kv] PDict.IH(2)[OF kv] by blast
    qed
    have r: "replace_obj L k = replace_obj L' k" if kv: "(k, v) \<in> set kvs" for k v
      using e[OF kv] by (metis pyobj.inject(1))
    have 1: "map (\<lambda>(k, v). (Raw (replace_obj L k), Raw (replace_obj L v))) kvs = kvs"
      by (rule map_idI) (use e in auto)
    have i1: "map (\<lambda>(k, v). (Raw (replace_obj L' k), Raw (replace_obj L' v))) kvs = kvs"
      by (rule map_idI) (use e in auto)
    have 2: "map (\<lambda>(k, v). collect_obj S k @ collect_obj S v) kvs = map (\<lambda>_. []) kvs"
      by (rule map_cong) (use e in auto)
    have 3: "map (\<lambda>(k, v). max (depth_obj B k) (depth_obj B v)) kvs
             = map (\<lambda>(k, v). max (height_obj k) (height_obj v)) kvs"
      by (rule map_cong) (use e in auto)
    have 4: "map (\<lambda>(k, v). replace_obj L k) kvs = map (\<lambda>(k, v). replace_obj L' k) kvs"
      by (rule map_cong) (use r in auto)
    have 5: "list_all (\<lambda>(k, v). plain_key (replace_obj L k)) kvs
             = list_all (\<lambda>(k, v). plain_key (replace_obj L' k)) kvs"
      using r by (auto simp: list_all_iff)
    have 6: "list_all (\<lambda>(k, v). keys_ok_obj L k \<and> keys_ok_obj L v) kvs
             = list_all (\<lambda>(k, v). keys_ok_obj L' k \<and> keys_ok_obj L' v) kvs"
      using e by (auto simp: list_all_iff)
    show "replace_val L (PDict kvs) = PDict kvs \<and> replace_val L' (PDict kvs) = PDict kvs \<and>
          collect_val S (PDict kvs) = [] \<and>
          depth_val B (PDict kvs) = height_val (PDict kvs) \<and>
          keys_ok_val L (PDict kvs) = keys_ok_val L' (PDict kvs)"
      by (simp add: 1 i1 2 3 4 5 6)
  qed
next
  case (Raw v)
  then show ?case by simp
qed simp_all

lemma unpack_Store_deep:
  "unpack_stores_from_object d rt (Raw (Store_value rt a)) True = Some (Inr (u, ss))
   \<Longrightarrow> unpack_stores_from_object d rt (PStore a) True = Some (Inr (u, ss @ [a]))"
  by (cases d) (auto split: pyval.splits option.splits sum.splits)

lemma unpack_Store_leaf:
  assumes "nested \<longrightarrow> store_free_val (Store_value rt a) \<and> keys_ok_val L (Store_value rt a)"
    and "(if nested then height_val (Store_value rt a) else 0) < d"
  shows "unpack_stores_from_object d rt (PStore a) nested = Some (Inr (Store_value rt a, [a]))"
proof (cases nested)
  case False
  then show ?thesis using assms(2) by (cases d) auto
next
  case True
  let ?v = "Store_value rt a"
  have sf: "store_free_val ?v" and ko: "keys_ok_val L ?v" and h: "height_val ?v < d"
    using assms True by simp_all
  have eq: "replace_val L ?v = ?v" "collect_val (\<lambda>a. [a]) ?v = []"
    "depth_val (\<lambda>a. 0) ?v = height_val ?v"
    using store_free_val_facts[where v = ?v and L = L and S = "\<lambda>a. [a]" and B = "\<lambda>a. 0"] sf
    by simp_all
  have "unpack_stores_from_object d rt (Raw ?v) True = Some (Inr (?v, []))"
    using unpack_walk_val[of "\<lambda>a. 0" ?v L rt True "\<lambda>a. [a]"] h ko eq by simp
  from unpack_Store_deep[OF this] show ?thesis using True by simp
qed

lemma unpack_deep_levels:
  "nested_ok n rt a \<Longrightarrow> deep_depth n rt a < d
     \<Longrightarrow> unpack_stores_from_object d rt (PStore a) True
           = Some (Inr (unwrap n rt a, collected n rt a))"
proof (induction n arbitrary: a d)
  case 0
  then show ?case
    using unpack_Store_leaf[of True rt a "Store_value rt" d] by simp
next
  case (Suc n)
  let ?v = "Store_value rt a"
  have leaf: "\<forall>b\<in>set (stores_val ?v).
          (\<forall>d. deep_depth n rt b < d \<longrightarrow>
             unpack_stores_from_object d rt (PStore b) True
               = Some (Inr (unwrap n rt b, collected n rt b)))"
    using Suc.prems(1) Suc.IH by (auto simp: list_all_iff)
  have "unpack_stores_from_object d rt (Raw ?v) True
          = Some (Inr (replace_val (unwrap n rt) ?v, collect_val (collected n rt) ?v))"
    using unpack_walk_val[of "deep_depth n rt" ?v "unwrap n rt" rt True "collected n rt"]
      Suc.prems leaf by simp
  from unpack_Store_deep[OF this] show ?case by simp
qed

lemma Store_set_heap:
  "heap (Store_set a v rt) =
     (heap rt)(a := (heap rt a)\<lparr>wrapped := (case v of PStore b \<Rightarrow> Store_value rt b | Raw w \<Rightarrow> w)\<rparr>)"
  by (cases v) (simp_all add: Store_set_def add_to_queue_def Store_value_def Let_def)

lemma Store_set_frame:
  "sid (heap (Store_set a v rt) b) = sid (heap rt b)"
  "backend_only (heap (Store_set a v rt) b) = backend_only (heap rt b)"
  "next_addr (Store_set a v rt) = next_addr rt"
  by (simp_all add: Store_set_def add_to_queue_def Let_def)

lemma set_many_frame:
  "sid (heap (set_many a vs rt) b) = sid (heap rt b) \<and>
   backend_only (heap (set_many a vs rt) b) = backend_only (heap rt b) \<and>
   next_addr (set_many a vs rt) = next_addr rt"
  by (induction vs arbitrary: rt) (simp_all add: Store_set_frame)

lemma proxied_heap_cong: "heap rt' = heap rt \<Longrightarrow> proxied rt' x = proxied rt x"
  by (cases x) (simp_all add: Store_value_def)

lemma hash_key_heap_cong:
  "heap rt' = heap rt \<Longrightarrow> hash_key d rt' k = hash_key d rt k"
  "heap rt' = heap rt \<Longrightarrow> hash_val d rt' w = hash_val d rt w"
  "heap rt' = heap rt \<Longrightarrow> hash_keys d rt' ks = hash_keys d rt ks"
proof (induction d rt k and d rt w and d rt ks rule: hash_key_hash_val_hash_keys.induct)
  case (3 d rt a)
  then show ?case by (simp add: Store_value_def)
next
  case (6 d rt xs)
  then show ?case by (simp split: option.splits sum.splits)
next
  case (11 d rt x xs)
  then show ?case by (simp split: option.splits sum.splits)
qed simp_all

lemma dict_setitem_heap_cong:
  assumes "heap rt' = heap rt"
  shows "dict_setitem d rt' kvs k v = dict_setitem d rt kvs k v"
proof -
  have "dict_put d rt' c kvs k v = dict_put d rt c kvs k v" for c
    by (induction kvs) (auto simp: hash_key_heap_cong(1)[OF assms])
  then show ?thesis
    by (simp add: dict_setitem_def hash_key_heap_cong(1)[OF assms] split: option.splits sum.splits)
qed

lemma unpack_heap_cong:
  "heap rt' = heap rt \<Longrightarrow>
     unpack_stores_from_object d rt' x n = unpack_stores_from_object d rt x n"
  "heap rt' = heap rt \<Longrightarrow> unpack_seq d rt' xs n acc ss = unpack_seq d rt xs n acc ss"
  "heap rt' = heap rt \<Longrightarrow> unpack_items d rt' kvs n acc2 ss = unpack_items d rt kvs n acc2 ss"
proof (induction d rt x n and d rt xs n acc ss and d rt kvs n acc2 ss
    rule: unpack_stores_from_object_unpack_seq_unpack_items.induct)
  case (2 d rt obj unpack_nested)
  then show ?case
    by (cases unpack_nested) (auto simp: proxied_heap_cong[of rt' rt] split: pyval.splits)
next
  case (4 d rt x xs unpack_nested unpacked stores)
  then show ?case by (simp split: option.splits sum.splits prod.splits)
next
  case (6 d rt k v kvs unpack_nested unpacked stores)
  then show ?case
    by (simp add: dict_setitem_heap_cong[of rt' rt] split: option.splits sum.splits prod.splits)
qed simp_all

lemma binop_body_state: "snd (binop_body ap bop rt s args) = rt"
  by (simp add: binop_body_def split: list.splits sum.splits)

lemma binop_body_result:
  "heap rt' = heap rt \<Longrightarrow> fst (binop_body ap bop rt' s args) = fst (binop_body ap bop rt s args)"
  by (simp add: binop_body_def split: list.splits sum.splits)

lemma binop_body_Raw: "fst (binop_body ap bop rt s args) = Inr r \<Longrightarrow> \<exists>v. r = Raw v"
  by (auto simp: binop_body_def split: list.splits sum.splits)

lemma reactive_binop:
  "reactive_call d (binop_body ap bop) s args rt =
     (case unpack_stores_from_object d rt (Raw (PTuple (PStore s # args))) False of
        None \<Rightarrow> (Inl RecursionError, rt)
      | Some (Inl e) \<Rightarrow> (Inl e, rt)
      | Some (Inr (unpacked, stores)) \<Rightarrow>
          (case fst (binop_body ap bop rt s
                  (case unpacked of PTuple xs \<Rightarrow> map (proxied rt) (tl xs) | _ \<Rightarrow> [])) of
             Inl e \<Rightarrow> (Inl e, rt)
           | Inr r \<Rightarrow>
               if \<not> reactive rt then (Inr r, rt)
               else (Inr (PStore (next_addr rt)),
                     rt\<lparr>heap := (heap rt)(next_addr rt :=
                               \<lparr>sid = next_addr rt, wrapped = proxied rt r, backend_only = False\<rparr>),
                        next_addr := Suc (next_addr rt),
                        nodes := nodes rt @
                          [\<lparr>op_inputs = map (\<lambda>a. sid (heap rt a)) stores,
                            op_outputs = [next_addr rt]\<rparr>]\<rparr>)))"
proof (cases "unpack_stores_from_object d rt (Raw (PTuple (PStore s # args))) False")
  case None
  then show ?thesis by (simp add: reactive_call_def)
next
  case (Some q)
  show ?thesis
  proof (cases q)
    case (Inl e)
    then show ?thesis using Some by (simp add: reactive_call_def)
  next
    case (Inr p)
    obtain unpacked stores where p: "p = (unpacked, stores)" by (cases p)
    define ra where "ra = (case unpacked of PTuple xs \<Rightarrow> map (proxied rt) (tl xs) | _ \<Rightarrow> [])"
    obtain res st where b: "binop_body ap bop rt s ra = (res, st)"
      by (cases "binop_body ap bop rt s ra")
    have st: "st = rt" using binop_body_state[of ap bop rt s ra] b by simp
    obtain res' st' where b': "binop_body ap bop (rt\<lparr>reactive := False\<rparr>) s ra = (res', st')"
      by (cases "binop_body ap bop (rt\<lparr>reactive := False\<rparr>) s ra")
    have st': "st' = rt\<lparr>reactive := False\<rparr>"
      using binop_body_state[of ap bop "rt\<lparr>reactive := False\<rparr>" s ra] b' by simp
    have res': "res' = res"
      using binop_body_result[of "rt\<lparr>reactive := False\<rparr>" rt ap bop s ra] b b' by simp
    show ?thesis
    proof (cases res)
      case (Inl e)
      show ?thesis
        using Some \<open>q = Inr p\<close> p b b' st st' res' Inl
        by (cases "reactive rt") (simp_all add: reactive_call_def ra_def[symmetric])
    next
      case (Inr r)
      then obtain v where v: "r = Raw v" using binop_body_Raw[of ap bop rt s ra r] b by auto
      show ?thesis
        using Some \<open>q = Inr p\<close> p b b' st st' res' Inr v
        by (cases "reactive rt")
           (simp_all add: reactive_call_def ra_def[symmetric] make_store_def Store_init_def Let_def)
    qed
  qed
qed

lemma Store_binop_cases:
  obtains (overflow) "Store_binop ap d bop s other rt = (Inl RecursionError, rt)"
  | (raised) e where "Store_binop ap d bop s other rt = (Inl e, rt)"
  | (plain) r where "\<not> reactive rt" "Store_binop ap d bop s other rt = (Inr r, rt)"
  | (tracked) w ins where "reactive rt"
      "Store_binop ap d bop s other rt =
         (Inr (PStore (next_addr rt)),
          rt\<lparr>heap := (heap rt)(next_addr rt :=
                    \<lparr>sid = next_addr rt, wrapped = w, backend_only = False\<rparr>),
             next_addr := Suc (next_addr rt),
             nodes := nodes rt @ [\<lparr>op_inputs = ins, op_outputs = [next_addr rt]\<rparr>]\<rparr>)"
proof (cases "unpack_stores_from_object d rt (Raw (PTuple [PStore s, other])) False")
  case None
  then have "Store_binop ap d bop s other rt = (Inl RecursionError, rt)"
    by (simp add: Store_binop_def reactive_binop)
  then show ?thesis by (rule overflow)
next
  case (Some q)
  show ?thesis
  proof (cases q)
    case (Inl e)
    then have "Store_binop ap d bop s other rt = (Inl e, rt)"
      using Some by (simp add: Store_binop_def reactive_binop)
    then show ?thesis by (rule raised)
  next
    case (Inr p)
    obtain unpacked stores where p: "p = (unpacked, stores)" by (cases p)
    define ra where "ra = (case unpacked of PTuple xs \<Rightarrow> map (proxied rt) (tl xs) | _ \<Rightarrow> [])"
    note u = Some[unfolded \<open>q = Inr p\<close> p]
    show ?thesis
    proof (cases "fst (binop_body ap bop rt s ra)")
      case (Inl e)
      then have "Store_binop ap d bop s other rt = (Inl e, rt)"
        using u by (simp add: Store_binop_def reactive_binop ra_def)
      then show ?thesis by (rule raised)
    next
      case (Inr r)
      show ?thesis
      proof (cases "reactive rt")
        case False
        then have "Store_binop ap d bop s other rt = (Inr r, rt)"
          using u Inr by (simp add: Store_binop_def reactive_binop ra_def)
        with False show ?thesis by (rule plain)
      next
        case True
        then have "Store_binop ap d bop s other rt =
           (Inr (PStore (next_addr rt)),
            rt\<lparr>heap := (heap rt)(next_addr rt :=
                      \<lparr>sid = next_addr rt, wrapped = proxied rt r, backend_only = False\<rparr>),
               next_addr := Suc (next_addr rt),
               nodes := nodes rt @ [\<lparr>op_inputs = map (\<lambda>a. sid (heap rt a)) stores,
                                     op_outputs = [next_addr rt]\<rparr>]\<rparr>)"
          using u Inr by (simp add: Store_binop_def reactive_binop ra_def)
        with True show ?thesis by (rule tracked)
      qed
    qed
  qed
qed

lemma Store_binop_frame:
  "warnings (snd (Store_binop ap d bop s other rt)) = warnings rt"
  "s < next_addr rt \<Longrightarrow> heap (snd (Store_binop ap d bop s other rt)) s = heap rt s"
  by (cases ap d bop s other rt rule: Store_binop_cases; simp)+

lemma Store_binop_warnings:
  "fst (Store_binop ap d bop s other (rt\<lparr>warnings := w\<rparr>)) = fst (Store_binop ap d bop s other rt)"
  "heap (snd (Store_binop ap d bop s other (rt\<lparr>warnings := w\<rparr>)))
     = heap (snd (Store_binop ap d bop s other rt))"
  "nodes (snd (Store_binop ap d bop s other (rt\<lparr>warnings := w\<rparr>)))
     = nodes (snd (Store_binop ap d bop s other rt))"
  "next_addr (snd (Store_binop ap d bop s other (rt\<lparr>warnings := w\<rparr>)))
     = next_addr (snd (Store_binop ap d bop s other rt))"
proof -
  define R where "R = Store_binop ap d bop s other rt"
  define R' where "R' = Store_binop ap d bop s other (rt\<lparr>warnings := w\<rparr>)"
  let ?rt = "rt\<lparr>warnings := w\<rparr>"
  have u: "unpack_stores_from_object d ?rt x False = unpack_stores_from_object d rt x False" for x
    by (rule unpack_heap_cong) simp
  have p: "proxied ?rt = proxied rt"
    by (rule ext) (rule proxied_heap_cong, simp)
  have b: "fst (binop_body ap bop ?rt s args) = fst (binop_body ap bop rt s args)" for args
    by (rule binop_body_result) simp
  have R': "R' = (case unpack_stores_from_object d rt (Raw (PTuple (PStore s # [other]))) False of
        None \<Rightarrow> (Inl RecursionError, ?rt)
      | Some (Inl e) \<Rightarrow> (Inl e, ?rt)
      | Some (Inr (unpacked, stores)) \<Rightarrow>
          (case fst (binop_body ap bop rt s
                  (case unpacked of PTuple xs \<Rightarrow> map (proxied rt) (tl xs) | _ \<Rightarrow> [])) of
             Inl e \<Rightarrow> (Inl e, ?rt)
           | Inr r \<Rightarrow>
               if \<not> reactive ?rt then (Inr r, ?rt)
               else (Inr (PStore (next_addr ?rt)),
                     ?rt\<lparr>heap := (heap ?rt)(next_addr ?rt :=
                               \<lparr>sid = next_addr ?rt, wrapped = proxied rt r, backend_only = False\<rparr>),
                        next_addr := Suc (next_addr ?rt),
                        nodes := nodes ?rt @
                          [\<lparr>op_inputs = map (\<lambda>a. sid (heap ?rt a)) stores,
                            op_outputs = [next_addr ?rt]\<rparr>]\<rparr>)))"
    unfolding R'_def Store_binop_def reactive_binop[of d ap bop s "[other]" ?rt] u p b ..
  have "fst R' = fst R" "heap (snd R') = heap (snd R)" "nodes (snd R') = nodes (snd R)"
    "next_addr (snd R') = next_addr (snd R)"
    unfolding R' unfolding R_def Store_binop_def reactive_binop[of d ap bop s "[other]" rt]
    by (simp_all split: option.split sum.split)
  then show
    "fst (Store_binop ap d bop s other (rt\<lparr>warnings := w\<rparr>)) = fst (Store_binop ap d bop s other rt)"
    "heap (snd (Store_binop ap d bop s other (rt\<lparr>warnings := w\<rparr>)))
       = heap (snd (Store_binop ap d bop s other rt))"
    "nodes (snd (Store_binop ap d bop s other (rt\<lparr>warnings := w\<rparr>)))
       = nodes (snd (Store_binop ap d bop s other rt))"
    "next_addr (snd (Store_binop ap d bop s other (rt\<lparr>warnings := w\<rparr>)))
       = next_addr (snd (Store_binop ap d bop s other rt))"
    by (simp_all add: R_def R'_def)
qed

lemma unpack_graph_seq_Some:
  "unpack_graph_seq ins d g xs n acc ss = Some (Inr r) \<Longrightarrow> x \<in> set xs
     \<Longrightarrow> \<exists>r'. unpack_graph ins d g x n = Some (Inr r')"
  by (induction xs arbitrary: acc ss) (auto split: option.splits sum.splits)

lemma unpack_graph_items_Some:
  "unpack_graph_items ins d g kvs n acc ss = Some (Inr r) \<Longrightarrow> (k, v) \<in> set kvs
     \<Longrightarrow> (\<exists>r'. unpack_graph ins d g k n = Some (Inr r')) \<and>
         (\<exists>r'. unpack_graph ins d g v n = Some (Inr r'))"
  by (induction kvs arbitrary: acc ss) (auto split: option.splits sum.splits)

lemma unpack_graph_item:
  assumes "unpack_graph ins (Suc d) g a n = Some (Inr r)" and "b \<in> set (walked g n a)"
  shows "\<exists>r'. unpack_graph ins d g b n = Some (Inr r')"
proof -
  from assms(2) have ns: "\<not> (\<not> n \<and> g_is_Store (g a))" and b: "b \<in> set (items_of (g_proxied (g a)))"
    by (auto simp: walked_def split: if_splits)
  show ?thesis
  proof (cases "g_proxied (g a)")
    case (GList xs)
    then show ?thesis using assms(1) ns b
      by (auto split: option.splits sum.splits dest: unpack_graph_seq_Some)
  next
    case (GTuple xs)
    then show ?thesis using assms(1) ns b
      by (auto split: option.splits sum.splits dest: unpack_graph_seq_Some)
  next
    case (GDict kvs)
    then show ?thesis using assms(1) ns b
      by (auto split: option.splits sum.splits dest: unpack_graph_items_Some)
  qed (use b in simp_all)
qed

lemma unpack_graph_contains:
  "contains g n a b \<Longrightarrow> unpack_graph ins d g a n = Some (Inr r)
     \<Longrightarrow> \<exists>d' r'. d' < d \<and> unpack_graph ins d' g b n = Some (Inr r')"
proof (induction arbitrary: d r rule: contains.induct)
  case (item b a)
  then obtain d0 where d: "d = Suc d0" by (cases d) auto
  with item unpack_graph_item[of ins d0 g a n r b] show ?case by auto
next
  case (deeper b a c)
  then obtain d0 where d: "d = Suc d0" by (cases d) auto
  with deeper.prems deeper.hyps(1) unpack_graph_item[of ins d0 g a n r b]
  obtain r' where "unpack_graph ins d0 g b n = Some (Inr r')" by auto
  from deeper.IH[OF this] obtain d' r'' where "d' < d0" "unpack_graph ins d' g c n = Some (Inr r'')"
    by auto
  then show ?case using d by (intro exI[of _ d'] exI[of _ r'']) simp
qed

lemma cycle_never_returns:
  "contains g n a a \<Longrightarrow> unpack_graph ins d g a n \<noteq> Some (Inr r)"
proof (induction d arbitrary: r rule: less_induct)
  case (less d)
  show ?case
  proof
    assume "unpack_graph ins d g a n = Some (Inr r)"
    from unpack_graph_contains[OF less.prems this] obtain d' r' where
      "d' < d" "unpack_graph ins d' g a n = Some (Inr r')" by auto
    with less.IH[OF _ less.prems] show False by blast
  qed
qed

lemma unpack_graph_raises:
  "unpack_graph ins d g a n = Some (Inl e) \<Longrightarrow> \<exists>kvs k v. ins kvs k v = Inl e"
  "unpack_graph_seq ins d g xs n acc ss = Some (Inl e) \<Longrightarrow> \<exists>kvs k v. ins kvs k v = Inl e"
  "unpack_graph_items ins d g kvs0 n acc2 ss = Some (Inl e) \<Longrightarrow> \<exists>kvs k v. ins kvs k v = Inl e"
proof (induction ins d g a n and ins d g xs n acc ss and ins d g kvs0 n acc2 ss
    rule: unpack_graph_unpack_graph_seq_unpack_graph_items.induct)
  case (2 ins d g a unpack_nested)
  then show ?case
    by (auto split: if_splits gplain.splits option.splits sum.splits prod.splits)
next
  case (4 ins d g x xs unpack_nested unpacked stores)
  then show ?case by (auto split: option.splits sum.splits prod.splits)
next
  case (6 ins d g k v kvs unpack_nested unpacked stores)
  then show ?case by (auto split: option.splits sum.splits prod.splits)
qed simp_all

lemma same_key_insert_total: "\<exists>kvs'. same_key_insert kvs k v = Inr kvs'"
  by (induction kvs) (auto split: sum.splits)

lemma cycle_overflows:
  assumes "contains g n a a"
  shows "unpack_graph same_key_insert d g a n = None"
proof (cases "unpack_graph same_key_insert d g a n")
  case None
  then show ?thesis .
next
  case (Some q)
  show ?thesis
  proof (cases q)
    case (Inl e)
    with Some unpack_graph_raises(1)[of same_key_insert d g a n e]
    obtain kvs k v where "same_key_insert kvs k v = Inl e" by auto
    with same_key_insert_total[of kvs k v] show ?thesis by simp
  next
    case (Inr r)
    with Some cycle_never_returns[OF assms, of same_key_insert d r] show ?thesis by simp
  qed
qed

lemma self_list_cycle: "contains self_list n 0 0"
  by (rule contains.item) (simp add: walked_def self_list_def)

section \<open>The claims\<close>

text \<open>
  C1. Store identity is stable under mutation: after any finite sequence of \<^verbatim>\<open>s.set(v)\<close>
  calls the id of \<open>s\<close> (and of every other Store) is what it was, no Store object has been
  constructed (the next free address has not moved), and one \<^verbatim>\<open>set\<close> changes nothing in
  the heap but the wrapped value of the cell of \<open>s\<close>.
\<close>

theorem set_keeps_identity:
  "sid (heap (set_many s vs rt) b) = sid (heap rt b) \<and>
   next_addr (set_many s vs rt) = next_addr rt \<and>
   heap (Store_set s v rt) =
     (heap rt)(s := (heap rt s)\<lparr>wrapped := (case v of PStore t \<Rightarrow> Store_value rt t | Raw w \<Rightarrow> w)\<rparr>)"
  using set_many_frame[of s vs rt b] Store_set_heap[of s v rt] by simp

text \<open>
  C2, as amended. For an argument tree of scalars, Stores, lists, tuples and dicts with no
  Store nested inside another Store, whose dict keys are hashable and pairwise different
  once Stores are replaced by their values, the walk returns (at every recursion depth the
  tree fits in, and for both values of \<^verbatim>\<open>unpack_nested\<close>) the tree of the same containers
  with every Store replaced by its wrapped value, and the Stores met, in walk order.
\<close>

theorem unpack_replaces_stores:
  assumes "no_nested_Store rt obj" and "keys_distinct rt unpack_nested obj"
    and "walk_depth rt unpack_nested obj < d"
  shows "unpack_stores_from_object d rt obj unpack_nested
           = Some (Inr (strip_obj rt obj, stores_obj obj))"
proof -
  have "\<forall>a\<in>set (stores_obj obj).
          (\<forall>d. (if unpack_nested then height_val (Store_value rt a) else 0) < d \<longrightarrow>
             unpack_stores_from_object d rt (PStore a) unpack_nested
               = Some (Inr (Store_value rt a, [a])))"
    using assms(1,2) unpack_Store_leaf[of unpack_nested rt _ "Store_value rt"]
    by (auto simp: no_nested_Store_def keys_distinct_def list_all_iff)
  then show ?thesis
    using unpack_walk_obj[of "\<lambda>a. if unpack_nested then height_val (Store_value rt a) else 0"
        obj "Store_value rt" rt unpack_nested "\<lambda>a. [a]"] assms(2,3)
    by (simp add: keys_distinct_def walk_depth_def)
qed

text \<open>
  The scenario of the specification: \<^verbatim>\<open>{"a": storeX, "b": [storeY, 5]}\<close> unpacks to
  \<^verbatim>\<open>{"a": 7, "b": ["y", 5]}\<close> and collects \<open>storeX\<close> and \<open>storeY\<close>.
\<close>

theorem unpack_replaces_stores_witness:
  "no_nested_Store scenario_rt scenario_arg \<and> keys_distinct scenario_rt False scenario_arg \<and>
   walk_depth scenario_rt False scenario_arg < 3 \<and>
   unpack_stores_from_object 3 scenario_rt scenario_arg False
     = Some (Inr (PDict [(Raw (PStr ''a''), Raw (PInt 7)),
                         (Raw (PStr ''b''), Raw (PList [Raw (PStr ''y''), Raw (PInt 5)]))],
                  [0, 1]))"
proof -
  have h: "no_nested_Store scenario_rt scenario_arg"
    "keys_distinct scenario_rt False scenario_arg"
    "walk_depth scenario_rt False scenario_arg < 3"
    by (simp_all add: scenario_arg_def scenario_rt_def Store_value_def no_nested_Store_def
        keys_distinct_def walk_depth_def)
  show ?thesis
    using h unpack_replaces_stores[OF h]
    by (simp add: scenario_arg_def scenario_rt_def Store_value_def)
qed

text \<open>
  C2 as stated fails in two ways, both on a dict with a Store among its keys. Where two keys
  are different Stores that wrap equal values, the rebuilt dict is keyed by the raw values,
  so the two entries become one: the dict of two entries below unpacks to a dict of one
  entry. Where a key is a Store that wraps a list, the raw key cannot be hashed and the
  assignment into the rebuilt dict raises \<open>TypeError\<close>.
\<close>

theorem unpack_merges_equal_keys:
  "no_nested_Store twin_rt twin_arg \<and>
   unpack_stores_from_object 2 twin_rt twin_arg False
     = Some (Inr (PDict [(Raw (PInt 1), Raw (PStr ''b''))], [0, 1])) \<and>
   strip_obj twin_rt twin_arg
     = PDict [(Raw (PInt 1), Raw (PStr ''a'')), (Raw (PInt 1), Raw (PStr ''b''))] \<and>
   no_nested_Store listkey_rt listkey_arg \<and>
   unpack_stores_from_object 2 listkey_rt listkey_arg False = Some (Inl TypeError)"
  by (simp add: twin_arg_def twin_rt_def listkey_arg_def listkey_rt_def Store_value_def
      no_nested_Store_def dict_setitem_def numeral_2_eq_2)

text \<open>
  C3. Unwrapping is shallow by default: with \<^verbatim>\<open>unpack_nested=False\<close> a Store unpacks to its
  wrapped value as it is, whatever that value holds, and only the Store itself is collected.
  With \<^verbatim>\<open>unpack_nested=True\<close> the Stores nested in it, to any number of levels, are
  replaced by their values and collected, each after the Stores inside it, and the Store
  itself is collected last.
\<close>

theorem unpack_shallow_by_default:
  "unpack_stores_from_object (Suc d) rt (PStore s) False = Some (Inr (Store_value rt s, [s])) \<and>
   (nested_ok n rt s \<and> deep_depth n rt s < d \<longrightarrow>
    unpack_stores_from_object d rt (PStore s) True
      = Some (Inr (unwrap n rt s, collected n rt s)))"
  using unpack_deep_levels[of n rt s d] by simp

theorem unpack_shallow_by_default_witness:
  "unpack_stores_from_object 4 nested_rt (PStore 2) False
     = Some (Inr (PDict [(Raw (PStr ''k''), PStore 1)], [2])) \<and>
   nested_ok 2 nested_rt 2 \<and> deep_depth 2 nested_rt 2 < 3 \<and>
   unpack_stores_from_object 3 nested_rt (PStore 2) True
     = Some (Inr (PDict [(Raw (PStr ''k''), Raw (PList [Raw (PInt 7), Raw (PInt 5)]))],
                  [0, 1, 2]))"
proof -
  have h: "nested_ok 2 nested_rt 2 \<and> deep_depth 2 nested_rt 2 < 3"
    by (simp add: numeral_2_eq_2 nested_rt_def Store_value_def)
  have u: "unwrap 2 nested_rt 2
             = PDict [(Raw (PStr ''k''), Raw (PList [Raw (PInt 7), Raw (PInt 5)]))]"
    "collected 2 nested_rt 2 = [0, 1, 2]"
    "Store_value nested_rt 2 = PDict [(Raw (PStr ''k''), PStore 1)]"
    by (simp_all add: numeral_2_eq_2 nested_rt_def Store_value_def)
  show ?thesis
    using h unpack_shallow_by_default[of 3 nested_rt 2 2] u
    by (simp add: eval_nat_numeral)
qed

text \<open>
  C4, as amended. The walk has no cycle check. For a container that holds itself, directly
  or through its items (through a Store only when \<^verbatim>\<open>unpack_nested\<close> is set), unpacking
  never returns a result: at every recursion depth the walk is still descending, which in
  Python ends in the interpreter's \<open>RecursionError\<close>, unless an assignment into a rebuilt
  dict raises on the way (\<open>TypeError\<close>, for a key that cannot be hashed). The walk itself
  raises nothing, so there is no \<open>StructuralCycle\<close> error, and since it returns nothing, no
  Store and no operation node is registered after it.
\<close>

theorem cyclic_argument_never_returns:
  assumes "contains g unpack_nested a a"
  shows "(case unpack_graph ins d g a unpack_nested of
            None \<Rightarrow> True
          | Some (Inl e) \<Rightarrow> (\<exists>kvs k v. ins kvs k v = Inl e)
          | Some (Inr r) \<Rightarrow> False)"
  using cycle_never_returns[OF assms, of ins d] unpack_graph_raises(1)[of ins d g a unpack_nested]
  by (auto split: option.splits sum.splits)

theorem cyclic_argument_never_returns_witness:
  "contains self_list True 0 0 \<and> unpack_graph same_key_insert 50 self_list 0 True = None"
proof -
  have h: "contains self_list True 0 0" by (rule self_list_cycle)
  have "\<nexists>kvs k v e. same_key_insert kvs k v = Inl e"
    using same_key_insert_total by (metis sum.distinct(1))
  then show ?thesis
    using h cyclic_argument_never_returns[OF h, of same_key_insert 50]
    by (auto split: option.splits sum.splits)
qed

text \<open>
  C4 as stated fails on \<^verbatim>\<open>l = []; l.append(l)\<close>: at depth 1000, the default recursion
  limit of the interpreter, the walk has not returned, and it has no way to raise.
\<close>

theorem self_list_overflows:
  "unpack_graph same_key_insert 1000 self_list 0 False = None"
  using self_list_cycle[of False] by (rule cycle_overflows)

text \<open>
  C5, as amended. The hash of a Store is the hash of its wrapped value: it follows the value
  across \<^verbatim>\<open>set\<close> and does not depend on the id of the Store.
\<close>

theorem hash_follows_value:
  "Store_hash other rt s = py_hash other (Store_value rt s) \<and>
   Store_hash other (Store_set s (Raw v) rt) s = py_hash other v \<and>
   Store_hash other (rt\<lparr>heap := (heap rt)(s := (heap rt s)\<lparr>sid := i\<rparr>)\<rparr>) s = Store_hash other rt s"
  by (simp add: Store_hash_def Store_value_def Store_set_def add_to_queue_def Let_def)

text \<open>
  C5 as stated fails: \<open>storeX\<close> wraps 7 and hashes to 7; after \<^verbatim>\<open>storeX.set(8)\<close> the same
  Store, with the same id, hashes to 8.
\<close>

theorem hash_changes_with_set:
  "Store_hash zero_hash scenario_rt 0 = 7 \<and>
   Store_hash zero_hash (Store_set 0 (Raw (PInt 8)) scenario_rt) 0 = 8 \<and>
   sid (heap (Store_set 0 (Raw (PInt 8)) scenario_rt) 0) = sid (heap scenario_rt 0)"
  by (simp add: Store_hash_def py_hash_def hash_int_def Store_set_def add_to_queue_def
      scenario_rt_def Let_def)

text \<open>
  C6. Boolean coercion of a Store returns the plain truth value of the wrapped value in
  every execution context; in a reactive context it issues the warning and changes nothing
  else, in a non-reactive context it changes nothing. It has no error result.
\<close>

theorem bool_is_plain:
  "fst (Store_bool s rt) = py_bool (Store_value rt s) \<and>
   snd (Store_bool s (rt\<lparr>reactive := True\<rparr>))
     = rt\<lparr>reactive := True, warnings := warnings rt @ [bool_msg]\<rparr> \<and>
   snd (Store_bool s (rt\<lparr>reactive := False\<rparr>)) = rt\<lparr>reactive := False\<rparr>"
  by (simp add: Store_bool_def warn_def Store_value_def Let_def)

text \<open>
  C8. Setting a Store \<open>s\<close> to a Store \<open>t\<close> stores the value that \<open>t\<close> wraps, not \<open>t\<close>: after
  the call \<open>s.value\<close> is what \<open>t.value\<close> was, and the modification appended to the queue
  carries the id of \<open>s\<close> and that unwrapped value.
\<close>

theorem set_unwraps_Store:
  "Store_value (Store_set s (PStore t) rt) s = Store_value rt t \<and>
   queue (Store_set s (PStore t) rt)
     = queue rt @ [\<lparr>mod_id = sid (heap rt s), mod_value = Store_value rt t\<rparr>]"
  by (simp add: Store_set_def add_to_queue_def Store_value_def Let_def)

text \<open>
  C9. \<^verbatim>\<open>make_store\<close> returns a Store argument itself and leaves the state as it is; for a
  value that is not a Store it returns a new Store, at an address not used before, that
  wraps the value; applying it to its own result returns that result and changes nothing.
\<close>

theorem make_store_idempotent:
  "make_store (PStore a) rt = (a, rt) \<and>
   fst (make_store (Raw w) rt) = next_addr rt \<and>
   next_addr (snd (make_store (Raw w) rt)) = Suc (next_addr rt) \<and>
   heap (snd (make_store (Raw w) rt))
     = (heap rt)(next_addr rt := \<lparr>sid = next_addr rt, wrapped = w, backend_only = False\<rparr>) \<and>
   make_store (PStore (fst (make_store v rt))) (snd (make_store v rt)) = make_store v rt"
  by (cases v) (simp_all add: make_store_def Store_init_def Let_def)

text \<open>
  C7. Every in-place operator of a Store (\<^verbatim>\<open>__iadd__\<close>, \<^verbatim>\<open>__isub__\<close>, \<^verbatim>\<open>__imul__\<close>,
  \<^verbatim>\<open>__iand__\<close>, \<^verbatim>\<open>__ior__\<close> and the others) issues its warning and returns what the
  out-of-place operator returns on the same operands, with the same effect on the heap and
  on the graph; the Store it is called on keeps its wrapped value.
\<close>

theorem inplace_is_out_of_place:
  assumes "s < next_addr rt"
  shows "fst (Store_inplace ap d bop s other rt) = fst (Store_binop ap d bop s other rt) \<and>
         warnings (snd (Store_inplace ap d bop s other rt)) = warnings rt @ [inplace_msg bop] \<and>
         heap (snd (Store_inplace ap d bop s other rt)) = heap (snd (Store_binop ap d bop s other rt)) \<and>
         nodes (snd (Store_inplace ap d bop s other rt)) = nodes (snd (Store_binop ap d bop s other rt)) \<and>
         heap (snd (Store_inplace ap d bop s other rt)) s = heap rt s"
  using assms Store_binop_frame(2)[of s rt ap d bop other]
    Store_binop_frame(1)[of ap d bop s other "warn (inplace_msg bop) rt"]
  by (simp add: Store_inplace_def warn_def Store_binop_warnings)

theorem inplace_is_out_of_place_witness:
  "0 < next_addr scenario_rt \<and>
   fst (Store_inplace int_arith 3 Add 0 (Raw (PInt 1)) scenario_rt) = Inr (PStore 4) \<and>
   fst (Store_binop int_arith 3 Add 0 (Raw (PInt 1)) scenario_rt) = Inr (PStore 4) \<and>
   Store_value (snd (Store_inplace int_arith 3 Add 0 (Raw (PInt 1)) scenario_rt)) 4 = PInt 8 \<and>
   warnings (snd (Store_inplace int_arith 3 Add 0 (Raw (PInt 1)) scenario_rt))
     = [''Store.__iadd__ is out-of-place. Use __add__ instead.''] \<and>
   Store_value (snd (Store_inplace int_arith 3 Add 0 (Raw (PInt 1)) scenario_rt)) 0 = PInt 7"
proof -
  have h: "0 < next_addr scenario_rt" by (simp add: scenario_rt_def)
  have b: "Store_binop int_arith 3 Add 0 (Raw (PInt 1)) scenario_rt =
     (Inr (PStore 4),
      scenario_rt\<lparr>heap := (heap scenario_rt)(4 := \<lparr>sid = 4, wrapped = PInt 8, backend_only = False\<rparr>),
                  next_addr := 5,
                  nodes := [\<lparr>op_inputs = [0], op_outputs = [4]\<rparr>]\<rparr>)"
    by (simp add: Store_binop_def reactive_binop binop_body_def numeral_3_eq_3 Store_value_def
        scenario_rt_def)
  show ?thesis
    using h inplace_is_out_of_place[OF h, of int_arith 3 Add "Raw (PInt 1)"] b
    by (simp add: Store_value_def inplace_msg_def scenario_rt_def)
qed



end
